theory Spec2Isabelle
  imports Main "HOL-Library.Word"
begin

section \<open>Data model of pwm\_fan\_controller.ino\<close>

text \<open>
  The sketch runs on an 8-bit AVR: \<open>byte\<close> is an unsigned 8-bit integer and
  \<open>unsigned long\<close> (the type of \<open>millis()\<close>) an unsigned 32-bit integer, both with
  wrap-around arithmetic.
\<close>

type_synonym byte = "8 word"
type_synonym ulong = "32 word"

text \<open>The first anonymous enum: button classifications and the processed flag.\<close>

datatype button_code =
  IS_NOT_PRESSED | IS_PRESSED | WAS_RELEASED | IS_HELD | PROCESSED | NOT_PROCESSED

text \<open>The second anonymous enum: the values of \<open>onoff_state\<close>.\<close>

datatype power = SYSTEM_ON | SYSTEM_OFF | TURBO_REQUESTED | TURBO_ON

subsection \<open>Constants\<close>

definition BUTTON_HOLD_FOR_TURBO_DELAY_IN_MILLIS :: ulong where
  "BUTTON_HOLD_FOR_TURBO_DELAY_IN_MILLIS = 2000"

definition BOOTSCREEN_DISPLAY_TIME_IN_MILLIS :: ulong where
  "BOOTSCREEN_DISPLAY_TIME_IN_MILLIS = 2000"

definition TURBO_TEXT_DISPLAY_TIME_IN_MILLIS :: ulong where
  "TURBO_TEXT_DISPLAY_TIME_IN_MILLIS = 500"

definition DEBOUNCE_DELAY_MILLS :: ulong where
  "DEBOUNCE_DELAY_MILLS = 40"

definition DISPLAY_REFRESH_RATE_MILLIS :: ulong where
  "DISPLAY_REFRESH_RATE_MILLIS = 100"

definition FAN_REFRESH_RATE_MILLIS :: ulong where
  "FAN_REFRESH_RATE_MILLIS = 10"

definition MIN_FAN_DUTYCYCLE_ANALOG :: int where
  "MIN_FAN_DUTYCYCLE_ANALOG = 155"

definition MAX_FAN_DUTYCYCLE_ANALOG :: int where
  "MAX_FAN_DUTYCYCLE_ANALOG = 255"

definition FAN_PULSE_READ_PIN :: nat where "FAN_PULSE_READ_PIN = 4"
definition FAN_CONTROL_PIN :: nat where "FAN_CONTROL_PIN = 3"
definition RELAY_CONTROL_PIN :: nat where "RELAY_CONTROL_PIN = 7"

definition RELAY_ON :: bool where "RELAY_ON = True"
definition RELAY_OFF :: bool where "RELAY_OFF = False"

text \<open>The order of the button arrays.\<close>

definition SPEED_UP_BUTTON :: nat where "SPEED_UP_BUTTON = 0"
definition SPEED_DOWN_BUTTON :: nat where "SPEED_DOWN_BUTTON = 1"
definition ONOFF_TOGGLE_BUTTON :: nat where "ONOFF_TOGGLE_BUTTON = 2"
definition NUMBER_OF_BUTTONS :: nat where "NUMBER_OF_BUTTONS = 3"

definition OFF_FAN_SPEED :: byte where "OFF_FAN_SPEED = 0"
definition MIN_FAN_SPEED :: byte where "MIN_FAN_SPEED = 1"
definition MAX_PWM_SPEED :: byte where "MAX_PWM_SPEED = 9"
definition MAX_FAN_SPEED :: byte where "MAX_FAN_SPEED = 10"
definition INCREMENT_FAN_SPEED :: byte where "INCREMENT_FAN_SPEED = 1"

definition DEFAULT_FAN_SPEED :: byte where
  "DEFAULT_FAN_SPEED = MIN_FAN_SPEED + INCREMENT_FAN_SPEED"

subsection \<open>Effects\<close>

text \<open>
  A call of \<open>process_button_click(i)\<close> or \<open>process_button_hold(i)\<close> is the logical
  event of button \<open>i\<close>. The model appends every such call to the field \<open>calls\<close> of the
  state, which the sketch does not have: it only makes the calls observable, and no
  function reads it.
\<close>

datatype event = Click nat | Hold nat

text \<open>
  Writes to the pins and to the display, in the order the sketch performs them. The
  display text is outside the model: a refresh is recorded with the two variables it
  reads.
\<close>

datatype effect =
  DigitalWrite nat bool
  | AnalogWrite nat byte
  | LcdClear
  | LcdRefresh power byte

subsection \<open>The variables of the sketch\<close>

text \<open>
  The globals, followed by the function-local \<open>static\<close> variables. A static local with
  a run-time initialiser is initialised when control first passes its declaration; such
  a variable is an \<open>option\<close>, \<open>None\<close> until then. The arrays have three elements and
  are indexed by the button number.
\<close>

record state =
  button_state :: "nat \<Rightarrow> button_code"
  onoff_state :: power
  turbo_requested_by_user :: bool
  user_fan_speed :: byte
  last_button_read :: "nat \<Rightarrow> bool"
  last_interaction_timestamp :: "(nat \<Rightarrow> ulong) option"
  last_button_state :: "nat \<Rightarrow> button_code"
  save_fan_speed :: "byte option"
  turbo_request_displayed_timer :: "ulong option"
  last_buttons_update :: "ulong option"
  last_fan_update :: "ulong option"
  last_display_update :: "ulong option"
  calls :: "event list"
  outputs :: "effect list"

text \<open>The value of a static local on a call at which its initialiser would yield \<open>v\<close>.\<close>

definition static_init :: "'a \<Rightarrow> 'a option \<Rightarrow> 'a" where
  "static_init v x = (case x of None \<Rightarrow> v | Some y \<Rightarrow> y)"

text \<open>
  Every timer of the sketch compares the sum of a stored clock value and an interval
  with the current clock value, in \<open>unsigned long\<close> arithmetic:
  \<^verbatim>\<open>mark + interval < millis()\<close>.
\<close>

definition expired :: "ulong \<Rightarrow> ulong \<Rightarrow> ulong \<Rightarrow> bool" where
  "expired mark interval t \<longleftrightarrow> mark + interval < t"

section \<open>Power and speed state machine\<close>

definition process_onoff_click :: "state \<Rightarrow> state" where
  "process_onoff_click s =
     (let save = static_init (user_fan_speed s) (save_fan_speed s) in
      if onoff_state s \<noteq> SYSTEM_OFF
      then s\<lparr>onoff_state := SYSTEM_OFF,
             save_fan_speed := Some (user_fan_speed s),
             user_fan_speed := OFF_FAN_SPEED\<rparr>
      else s\<lparr>onoff_state := SYSTEM_ON,
             save_fan_speed := Some save,
             user_fan_speed := save\<rparr>)"

definition set_max_fan_speed :: "state \<Rightarrow> state" where
  "set_max_fan_speed s = s\<lparr>user_fan_speed := MAX_FAN_SPEED\<rparr>"

definition speed_up_fan_speed :: "state \<Rightarrow> state" where
  "speed_up_fan_speed s =
     (if user_fan_speed s = OFF_FAN_SPEED then s\<lparr>user_fan_speed := MIN_FAN_SPEED\<rparr>
      else if user_fan_speed s < MAX_FAN_SPEED - INCREMENT_FAN_SPEED
      then s\<lparr>user_fan_speed := user_fan_speed s + INCREMENT_FAN_SPEED\<rparr>
      else s\<lparr>turbo_requested_by_user := True\<rparr>)"

definition slow_down_fan_speed :: "state \<Rightarrow> state" where
  "slow_down_fan_speed s =
     (if user_fan_speed s \<ge> MIN_FAN_SPEED + INCREMENT_FAN_SPEED
      then s\<lparr>user_fan_speed := user_fan_speed s - INCREMENT_FAN_SPEED\<rparr>
      else s)"

definition process_onoff_hold :: "state \<Rightarrow> state" where
  "process_onoff_hold s = (if onoff_state s \<noteq> SYSTEM_OFF then set_max_fan_speed s else s)"

definition process_speed_up_click :: "state \<Rightarrow> state" where
  "process_speed_up_click s = (if onoff_state s \<noteq> SYSTEM_OFF then speed_up_fan_speed s else s)"

definition process_speed_down_click :: "state \<Rightarrow> state" where
  "process_speed_down_click s =
     (if onoff_state s \<noteq> SYSTEM_OFF then slow_down_fan_speed s else s)"

definition process_button_click :: "nat \<Rightarrow> state \<Rightarrow> state" where
  "process_button_click button_clicked s =
     (let s' = s\<lparr>calls := calls s @ [Click button_clicked]\<rparr> in
      if button_clicked = ONOFF_TOGGLE_BUTTON then process_onoff_click s'
      else if button_clicked = SPEED_UP_BUTTON then process_speed_up_click s'
      else if button_clicked = SPEED_DOWN_BUTTON then process_speed_down_click s'
      else s')"

definition process_button_hold :: "nat \<Rightarrow> state \<Rightarrow> state" where
  "process_button_hold button_held s =
     (let s' = s\<lparr>calls := calls s @ [Hold button_held]\<rparr> in
      if button_held = ONOFF_TOGGLE_BUTTON then process_onoff_hold s' else s')"

subsection \<open>The turbo prompt\<close>

text \<open>
  \<open>process_turbo_request\<close> is three blocks in sequence: the entry into
  \<open>TURBO_REQUESTED\<close> when the flag is raised, the test of the two exit conditions, and the
  exit itself; it ends by clearing the flag. The clock is read once per call (\<open>now\<close>).
\<close>

definition turbo_request_enter :: "ulong \<Rightarrow> state \<Rightarrow> state" where
  "turbo_request_enter now s =
     (let s0 = s\<lparr>turbo_request_displayed_timer :=
                   Some (static_init now (turbo_request_displayed_timer s))\<rparr> in
      if user_fan_speed s0 \<noteq> MAX_FAN_SPEED \<and> turbo_requested_by_user s0
      then s0\<lparr>onoff_state := TURBO_REQUESTED, turbo_request_displayed_timer := Some now\<rparr>
      else s0)"

definition turbo_request_exit :: "ulong \<Rightarrow> state \<Rightarrow> bool" where
  "turbo_request_exit now s \<longleftrightarrow>
     onoff_state s = TURBO_REQUESTED \<and>
     (expired (static_init now (turbo_request_displayed_timer s))
        TURBO_TEXT_DISPLAY_TIME_IN_MILLIS now
      \<or> user_fan_speed s = MAX_FAN_SPEED)"

definition process_turbo_request :: "ulong \<Rightarrow> state \<Rightarrow> state" where
  "process_turbo_request now s =
     (let s1 = turbo_request_enter now s;
          s2 = (if turbo_request_exit now s1
                then s1\<lparr>onoff_state := SYSTEM_ON, outputs := outputs s1 @ [LcdClear]\<rparr>
                else s1)
      in s2\<lparr>turbo_requested_by_user := False\<rparr>)"

section \<open>Buttons\<close>

text \<open>
  The three iterations over the buttons are written \<^verbatim>\<open>for(byte i; i < NUMBER_OF_BUTTONS; i++)\<close>:
  the counter has no initialiser, so the value it starts from is indeterminate. The
  model takes that value as an argument (\<open>i0\<close>); from \<open>0\<close> the loop visits every button,
  from \<open>3\<close> or more none.
\<close>

definition for_buttons :: "nat \<Rightarrow> (nat \<Rightarrow> state \<Rightarrow> state) \<Rightarrow> state \<Rightarrow> state" where
  "for_buttons i0 body s = fold body [i0 ..< NUMBER_OF_BUTTONS] s"

subsection \<open>Gesture classifier\<close>

text \<open>
  \<open>level i\<close> is the value of \<open>digitalRead(button_pins[i])\<close>: the inputs have pull-ups,
  so the level is low (\<open>False\<close>) while the button is pressed.
\<close>

definition poll_input_signals_body :: "(nat \<Rightarrow> bool) \<Rightarrow> nat \<Rightarrow> state \<Rightarrow> state" where
  "poll_input_signals_body level i s =
     (let current_button_read = \<not> level i;
          last = last_button_read s i;
          code = (if \<not> last \<and> current_button_read then IS_PRESSED
                  else if last \<and> current_button_read then IS_HELD
                  else if last \<and> \<not> current_button_read then WAS_RELEASED
                  else IS_NOT_PRESSED)
      in s\<lparr>button_state := (button_state s)(i := code),
            last_button_read := (last_button_read s)(i := current_button_read)\<rparr>)"

definition poll_input_signals :: "nat \<Rightarrow> (nat \<Rightarrow> bool) \<Rightarrow> state \<Rightarrow> state" where
  "poll_input_signals i0 level s = for_buttons i0 (poll_input_signals_body level) s"

subsection \<open>Debounce and event resolver\<close>

text \<open>
  The clock is read once per call of \<open>process_buttons\<close> (\<open>now\<close>). The timestamps are
  a static array initialised with \<open>millis()\<close> on the first call.
\<close>

definition timestamp :: "ulong \<Rightarrow> state \<Rightarrow> nat \<Rightarrow> ulong" where
  "timestamp now s i = static_init (\<lambda>_. now) (last_interaction_timestamp s) i"

definition set_timestamp :: "nat \<Rightarrow> ulong \<Rightarrow> state \<Rightarrow> state" where
  "set_timestamp i now s =
     s\<lparr>last_interaction_timestamp :=
         Some ((static_init (\<lambda>_. now) (last_interaction_timestamp s))(i := now))\<rparr>"

definition process_buttons_body :: "ulong \<Rightarrow> nat \<Rightarrow> state \<Rightarrow> state" where
  "process_buttons_body now i s =
     (if button_state s i = IS_HELD \<and>
         expired (timestamp now s i) BUTTON_HOLD_FOR_TURBO_DELAY_IN_MILLIS now
      then
        (let s1 = set_timestamp i now s in
         if last_button_state s1 i = NOT_PROCESSED
         then process_button_hold i (s1\<lparr>last_button_state := (last_button_state s1)(i := PROCESSED)\<rparr>)
         else s1)
      else if button_state s i = IS_NOT_PRESSED \<and>
              expired (timestamp now s i) DEBOUNCE_DELAY_MILLS now
      then
        (let s1 = set_timestamp i now s in
         if last_button_state s1 i = NOT_PROCESSED
         then process_button_click i (s1\<lparr>last_button_state := (last_button_state s1)(i := PROCESSED)\<rparr>)
         else s1)
      else if button_state s i = IS_NOT_PRESSED
      then (set_timestamp i now s)\<lparr>last_button_state := (last_button_state s)(i := NOT_PROCESSED)\<rparr>
      else s)"

definition process_buttons :: "nat \<Rightarrow> ulong \<Rightarrow> state \<Rightarrow> state" where
  "process_buttons i0 now s =
     for_buttons i0 (process_buttons_body now)
       (s\<lparr>last_interaction_timestamp :=
            Some (static_init (\<lambda>_. now) (last_interaction_timestamp s))\<rparr>)"

section \<open>Fan output\<close>

definition process_fan_relay :: "state \<Rightarrow> state" where
  "process_fan_relay s =
     s\<lparr>outputs := outputs s @
        [DigitalWrite RELAY_CONTROL_PIN (if onoff_state s \<noteq> SYSTEM_OFF then RELAY_ON else RELAY_OFF)]\<rparr>"

text \<open>
  \<open>map\<close> of the Arduino core, on \<open>long\<close>:
  \<^verbatim>\<open>(x - in_min) * (out_max - out_min) / (in_max - in_min) + out_min\<close>, the division
  truncating towards zero.
\<close>

definition arduino_map :: "int \<Rightarrow> int \<Rightarrow> int \<Rightarrow> int \<Rightarrow> int \<Rightarrow> int" where
  "arduino_map x in_min in_max out_min out_max =
     (let n = (x - in_min) * (out_max - out_min); d = in_max - in_min
      in sgn n * sgn d * (\<bar>n\<bar> div \<bar>d\<bar>) + out_min)"

definition set_fan_speed :: "byte \<Rightarrow> state \<Rightarrow> state" where
  "set_fan_speed requested_fan_speed s =
     (if requested_fan_speed = OFF_FAN_SPEED
      then s\<lparr>outputs := outputs s @ [AnalogWrite FAN_CONTROL_PIN OFF_FAN_SPEED]\<rparr>
      else
        (let target = (word_of_int
               (arduino_map (uint requested_fan_speed) (uint MIN_FAN_SPEED) (uint MAX_PWM_SPEED)
                  MIN_FAN_DUTYCYCLE_ANALOG MAX_FAN_DUTYCYCLE_ANALOG) :: byte)
         in s\<lparr>outputs := outputs s @ [AnalogWrite FAN_CONTROL_PIN target]\<rparr>))"

definition process_fan_speed :: "state \<Rightarrow> state" where
  "process_fan_speed s =
     (if onoff_state s \<noteq> SYSTEM_OFF
      then
        (if user_fan_speed s = MAX_FAN_SPEED
         then (let s1 = set_fan_speed OFF_FAN_SPEED s
               in s1\<lparr>outputs := outputs s1 @ [DigitalWrite FAN_CONTROL_PIN False]\<rparr>)
         else set_fan_speed (user_fan_speed s) s)
      else set_fan_speed OFF_FAN_SPEED s)"

text \<open>
  The display: for the three states it handles, \<open>process_display_updates\<close> rewrites both
  lines of the LCD from \<open>onoff_state\<close>, \<open>user_fan_speed\<close> and the tachometer reading; for
  \<open>TURBO_ON\<close> it writes nothing.
\<close>

definition process_display_updates :: "state \<Rightarrow> state" where
  "process_display_updates s =
     (case onoff_state s of
        TURBO_ON \<Rightarrow> s
      | _ \<Rightarrow> s\<lparr>outputs := outputs s @ [LcdRefresh (onoff_state s) (user_fan_speed s)]\<rparr>)"

section \<open>Scheduler\<close>

text \<open>
  One pass of \<open>process_button_schedule\<close> reads the three button levels and the clock.
  The model reads the clock once per pass: every call of \<open>millis()\<close> made during the
  pass returns \<open>now x\<close>. The two start values are those of the uninitialised counters
  of \<open>poll_input_signals\<close> and \<open>process_buttons\<close>.
\<close>

record tick =
  level :: "nat \<Rightarrow> bool"
  now :: ulong
  poll_start :: nat
  buttons_start :: nat

definition process_button_schedule :: "tick \<Rightarrow> state \<Rightarrow> state" where
  "process_button_schedule x s =
     (let s0 = s\<lparr>last_buttons_update := Some (now x)\<rparr>;
          s1 = poll_input_signals (poll_start x) (level x) s0;
          s2 = process_buttons (buttons_start x) (now x) s1
      in process_turbo_request (now x) s2)"

text \<open>The rate gates: the conditions of the two \<open>if\<close> statements, on the clock value \<open>t\<close>.\<close>

definition fan_due :: "ulong \<Rightarrow> state \<Rightarrow> bool" where
  "fan_due t s \<longleftrightarrow> expired (static_init t (last_fan_update s)) FAN_REFRESH_RATE_MILLIS t"

definition display_due :: "ulong \<Rightarrow> state \<Rightarrow> bool" where
  "display_due t s \<longleftrightarrow>
     expired (static_init t (last_display_update s)) DISPLAY_REFRESH_RATE_MILLIS t"

definition process_fan_schedule :: "ulong \<Rightarrow> state \<Rightarrow> state" where
  "process_fan_schedule t s =
     (if fan_due t s
      then process_fan_speed (process_fan_relay (s\<lparr>last_fan_update := Some t\<rparr>))
      else s\<lparr>last_fan_update := Some (static_init t (last_fan_update s))\<rparr>)"

definition process_display_schedule :: "ulong \<Rightarrow> state \<Rightarrow> state" where
  "process_display_schedule t s =
     (if display_due t s
      then process_display_updates (s\<lparr>last_display_update := Some t\<rparr>)
      else s\<lparr>last_display_update := Some (static_init t (last_display_update s))\<rparr>)"

definition loop :: "tick \<Rightarrow> ulong \<Rightarrow> ulong \<Rightarrow> state \<Rightarrow> state" where
  "loop x fan_now display_now s =
     process_display_schedule display_now (process_fan_schedule fan_now (process_button_schedule x s))"

section \<open>Start-up\<close>

text \<open>
  The variables as their initialisers leave them, before \<open>setup()\<close> runs (modelled by
  \<open>arduino_setup\<close>).
\<close>

definition power_on :: state where
  "power_on =
     \<lparr>button_state = (\<lambda>_. IS_NOT_PRESSED),
      onoff_state = SYSTEM_ON,
      turbo_requested_by_user = False,
      user_fan_speed = DEFAULT_FAN_SPEED,
      last_button_read = (\<lambda>_. False),
      last_interaction_timestamp = None,
      last_button_state = (\<lambda>_. NOT_PROCESSED),
      save_fan_speed = None,
      turbo_request_displayed_timer = None,
      last_buttons_update = None,
      last_fan_update = None,
      last_display_update = None,
      calls = [],
      outputs = []\<rparr>"

text \<open>
  The boot screen waits in a loop that polls the buttons. Each element of the input list
  is one evaluation of the loop condition with the clock value \<open>now x\<close> and, when the
  body runs, the inputs of that pass. The loop ends when the time is up or the system
  has left \<open>SYSTEM_OFF\<close>; \<open>None\<close> means the inputs ended before the loop did.
\<close>

fun boot_screen_wait :: "ulong \<Rightarrow> tick list \<Rightarrow> state \<Rightarrow> state option" where
  "boot_screen_wait bootscreen_timer [] s = None"
| "boot_screen_wait bootscreen_timer (x # xs) s =
     (if bootscreen_timer + BOOTSCREEN_DISPLAY_TIME_IN_MILLIS > now x
      then (let s' = process_button_schedule x s
            in if onoff_state s' \<noteq> SYSTEM_OFF then Some s'
               else boot_screen_wait bootscreen_timer xs s')
      else Some s)"

definition show_boot_screen :: "ulong \<Rightarrow> tick list \<Rightarrow> state \<Rightarrow> state option" where
  "show_boot_screen bootscreen_timer xs s =
     map_option (\<lambda>s'. s'\<lparr>outputs := outputs s' @ [LcdClear]\<rparr>)
       (boot_screen_wait bootscreen_timer xs s)"

text \<open>
  \<open>setup()\<close> up to the boot screen: the relay is switched off, the pull-up of the
  tachometer input is enabled and the power state becomes off. (Pin modes, the LCD
  geometry and the PWM frequency are outside the model.)
\<close>

definition configure :: "state \<Rightarrow> state" where
  "configure s =
     (let s1 = s\<lparr>outputs := outputs s @
                  [DigitalWrite RELAY_CONTROL_PIN RELAY_OFF,
                   DigitalWrite FAN_PULSE_READ_PIN True]\<rparr>
      in s1\<lparr>onoff_state := SYSTEM_OFF\<rparr>)"

definition arduino_setup :: "ulong \<Rightarrow> tick list \<Rightarrow> state option" where
  "arduino_setup t0 xs = show_boot_screen t0 xs (configure power_on)"

text \<open>
  The states of the running system: the one \<open>arduino_setup\<close> returns, and every state after a
  further pass of \<open>loop\<close>, for all inputs.
\<close>

inductive reachable :: "state \<Rightarrow> bool" where
  after_setup: "arduino_setup t0 xs = Some s \<Longrightarrow> reachable s"
| after_loop: "reachable s \<Longrightarrow> reachable (loop x fan_now display_now s)"

section \<open>Notions used in the properties\<close>

text \<open>The clock: \<open>millis()\<close> read \<open>T\<close> milliseconds after reset, a 32-bit counter.\<close>

definition millis :: "nat \<Rightarrow> ulong" where
  "millis T = of_nat T"

text \<open>A logical event handed to its handler.\<close>

fun apply_event :: "event \<Rightarrow> state \<Rightarrow> state" where
  "apply_event (Click i) s = process_button_click i s"
| "apply_event (Hold i) s = process_button_hold i s"

text \<open>
  What links the power state, the fan speed and the saved speed, in every state of the
  running system.
\<close>

definition boot_inv :: "state \<Rightarrow> bool" where
  "boot_inv s \<longleftrightarrow>
     (onoff_state s = SYSTEM_OFF \<longrightarrow>
        user_fan_speed s = OFF_FAN_SPEED \<or>
        (save_fan_speed s = None \<and> user_fan_speed s = DEFAULT_FAN_SPEED)) \<and>
     (save_fan_speed s = None \<longrightarrow>
        onoff_state s = SYSTEM_OFF \<and> user_fan_speed s = DEFAULT_FAN_SPEED \<and>
        \<not> turbo_requested_by_user s) \<and>
     (save_fan_speed s = None \<longleftrightarrow> Click ONOFF_TOGGLE_BUTTON \<notin> set (calls s))"

text \<open>
  Concrete inputs. \<open>pass held t\<close> is a pass at clock value \<open>t\<close> during which exactly the
  buttons in \<open>held\<close> are pressed, and in which every loop visits all three buttons.
  \<open>boot_ticks\<close> is a boot screen left alone, polled once at clock value 0 and found over
  at 2000, and \<open>booted\<close> the state \<open>setup()\<close> then returns. \<open>started\<close> is the state in
  which the boot screen makes its first pass.
\<close>

definition pass :: "nat list \<Rightarrow> ulong \<Rightarrow> tick" where
  "pass held t = \<lparr>level = (\<lambda>i. i \<notin> set held), now = t, poll_start = 0, buttons_start = 0\<rparr>"

definition idle :: "ulong \<Rightarrow> tick" where
  "idle t = pass [] t"

definition boot_ticks :: "tick list" where
  "boot_ticks = [idle 0, idle 2000]"

definition booted :: state where
  "booted = the (arduino_setup 0 boot_ticks)"

definition started :: state where
  "started = configure power_on"

text \<open>
  What a sequence of passes of \<open>process_button_schedule\<close> shows of button \<open>b\<close>: for each
  pass, the classification of the button and the logical events of the button that the
  pass emitted (the calls it added).
\<close>

definition of_button :: "nat \<Rightarrow> event \<Rightarrow> bool" where
  "of_button b e \<longleftrightarrow> e = Click b \<or> e = Hold b"

definition new_calls :: "state \<Rightarrow> state \<Rightarrow> event list" where
  "new_calls s s' = drop (length (calls s)) (calls s')"

fun observe :: "nat \<Rightarrow> tick list \<Rightarrow> state \<Rightarrow> (button_code \<times> event list) list" where
  "observe b [] s = []"
| "observe b (x # xs) s =
     (let s' = process_button_schedule x s
      in (button_state s' b, filter (of_button b) (new_calls s s')) # observe b xs s')"

text \<open>
  The events one execution of the body of the loop of \<open>process_buttons\<close> emits for
  button \<open>i\<close>, read off the state before it.
\<close>

definition fires :: "ulong \<Rightarrow> state \<Rightarrow> nat \<Rightarrow> event list" where
  "fires t s i =
     (if button_state s i = IS_HELD \<and>
         expired (timestamp t s i) BUTTON_HOLD_FOR_TURBO_DELAY_IN_MILLIS t
      then (if last_button_state s i = NOT_PROCESSED then [Hold i] else [])
      else if button_state s i = IS_NOT_PRESSED \<and>
              expired (timestamp t s i) DEBOUNCE_DELAY_MILLS t
      then (if last_button_state s i = NOT_PROCESSED then [Click i] else [])
      else [])"

text \<open>The timestamp of button \<open>b\<close>, once the static array is initialised.\<close>

definition stamp_of :: "state \<Rightarrow> nat \<Rightarrow> ulong option" where
  "stamp_of s b = map_option (\<lambda>g. g b) (last_interaction_timestamp s)"

text \<open>The timestamp of button \<open>b\<close> lies within the debounce time after the time \<open>m\<close>.\<close>

definition stamped :: "nat \<Rightarrow> nat \<Rightarrow> state \<Rightarrow> bool" where
  "stamped b m s \<longleftrightarrow> (\<exists>w. stamp_of s b = Some w \<and> m \<le> unat w \<and> unat w \<le> m + 40)"

text \<open>
  A sequence of observations in which a pass emits at most one event, and none unless the
  button is armed; emitting disarms it, and it is armed again by a pass that classifies
  it \<open>c0\<close> and emits nothing.
\<close>

fun spaced :: "button_code \<Rightarrow> bool \<Rightarrow> (button_code \<times> event list) list \<Rightarrow> bool" where
  "spaced c0 armed [] = True"
| "spaced c0 armed ((c, es) # os) =
     (if es = [] then spaced c0 (armed \<or> c = c0) os
      else armed \<and> length es = 1 \<and> spaced c0 False os)"

text \<open>
  Passes that all visit button \<open>b\<close>, made while the clock is more than the debounce time
  before its wrap, each no earlier than the one before (\<open>prev\<close>, if any) and no more than
  \<open>DEBOUNCE_DELAY_MILLS\<close> later.
\<close>

fun paced :: "nat \<Rightarrow> ulong option \<Rightarrow> tick list \<Rightarrow> bool" where
  "paced b prev [] = True"
| "paced b prev (x # xs) =
     (poll_start x \<le> b \<and> buttons_start x \<le> b \<and> b < NUMBER_OF_BUTTONS \<and>
      unat (now x) + unat DEBOUNCE_DELAY_MILLS < 2 ^ 32 \<and>
      (case prev of
         None \<Rightarrow> True
       | Some t \<Rightarrow> unat t \<le> unat (now x) \<and> unat (now x) \<le> unat t + unat DEBOUNCE_DELAY_MILLS) \<and>
      paced b (Some (now x)) xs)"

text \<open>
  Button \<open>b\<close> cannot emit an event before it is pressed afresh: its flag is not
  \<open>NOT_PROCESSED\<close>, or it read open on the last pass, made at clock value \<open>t\<close>, and its
  timestamp (if initialised) is \<open>t\<close>.
\<close>

definition settled :: "nat \<Rightarrow> ulong \<Rightarrow> state \<Rightarrow> bool" where
  "settled b t s \<longleftrightarrow>
     last_button_state s b \<noteq> NOT_PROCESSED \<or>
     (\<not> last_button_read s b \<and> (case stamp_of s b of None \<Rightarrow> True | Some w \<Rightarrow> w = t))"


text \<open>
  Five gestures on the speed-up button, from the first pass on. \<open>long_press\<close>: pressed
  from 10 to 60, read open again at 70 and 80. \<open>short_press\<close>: open at 0, pressed from 5
  to 35, open at 39 and 41. \<open>brief_press\<close>: pressed for the ten passes from 1 to 10, one
  per millisecond, open at 11 and 12. \<open>double_click\<close>: the long press, followed by idle
  passes at 90 and 140. \<open>two_clicks\<close>: the long press, an idle pass at 90, and a second
  press from 100 to 120, read open at 130 and 140.
\<close>

definition long_press :: "tick list" where
  "long_press =
     [idle 0, pass [0] 10, pass [0] 20, pass [0] 30, pass [0] 40, pass [0] 50, pass [0] 60,
      idle 70, idle 80]"

definition short_press :: "tick list" where
  "short_press =
     [idle 0, pass [0] 5, pass [0] 10, pass [0] 15, pass [0] 20, pass [0] 25, pass [0] 30,
      pass [0] 35, idle 39, idle 41]"

definition brief_press :: "tick list" where
  "brief_press =
     [pass [0] 1, pass [0] 2, pass [0] 3, pass [0] 4, pass [0] 5, pass [0] 6, pass [0] 7,
      pass [0] 8, pass [0] 9, pass [0] 10, idle 11, idle 12]"

definition double_click :: "tick list" where
  "double_click = long_press @ [idle 90, idle 140]"

text \<open>
  An idle system polled once per millisecond, from 46 ms before the clock wraps (at
  4294967296) on.
\<close>

definition idle_at_wrap :: "tick list" where
  "idle_at_wrap =
     [idle 4294967250, idle 4294967251, idle 4294967252, idle 4294967253, idle 4294967254,
      idle 4294967255, idle 4294967256, idle 4294967257]"

definition two_clicks :: "tick list" where
  "two_clicks =
     long_press @
     [idle 90, pass [0] 100, pass [0] 110, pass [0] 120, idle 130, idle 140]"

text \<open>
  A state showing the turbo prompt since time \<open>M\<close>, at speed 9; and the state the sketch
  is in after a click of the speed-up button at speed 9, processed at clock value
  4294966795, which is 501 ms before the clock wraps.
\<close>

definition prompting_at :: "nat \<Rightarrow> state" where
  "prompting_at M = power_on\<lparr>onoff_state := TURBO_REQUESTED, user_fan_speed := 9,
     turbo_request_displayed_timer := Some (millis M)\<rparr>"

definition late_prompt :: state where
  "late_prompt =
     process_turbo_request (millis 4294966795)
       (process_button_click SPEED_UP_BUTTON (power_on\<lparr>user_fan_speed := 9\<rparr>))"

text \<open>The state \<open>setup()\<close> returned, with both tasks last run at time \<open>T\<close>.\<close>

definition gated :: "nat \<Rightarrow> state" where
  "gated T = booted\<lparr>last_fan_update := Some (millis T), last_display_update := Some (millis T)\<rparr>"

section \<open>Properties\<close>

lemmas button_ids =
  SPEED_UP_BUTTON_def SPEED_DOWN_BUTTON_def ONOFF_TOGGLE_BUTTON_def NUMBER_OF_BUTTONS_def

lemmas speed_consts =
  OFF_FAN_SPEED_def MIN_FAN_SPEED_def MAX_PWM_SPEED_def MAX_FAN_SPEED_def
  INCREMENT_FAN_SPEED_def DEFAULT_FAN_SPEED_def

lemmas time_consts =
  BUTTON_HOLD_FOR_TURBO_DELAY_IN_MILLIS_def BOOTSCREEN_DISPLAY_TIME_IN_MILLIS_def
  TURBO_TEXT_DISPLAY_TIME_IN_MILLIS_def DEBOUNCE_DELAY_MILLS_def
  DISPLAY_REFRESH_RATE_MILLIS_def FAN_REFRESH_RATE_MILLIS_def

lemmas handler_defs =
  process_button_click_def process_button_hold_def process_onoff_click_def
  process_onoff_hold_def process_speed_up_click_def process_speed_down_click_def
  speed_up_fan_speed_def slow_down_fan_speed_def set_max_fan_speed_def

subsection \<open>The power toggle keeps the selected speed\<close>

lemma apply_event_off:
  assumes "onoff_state s = SYSTEM_OFF" and "e \<noteq> Click ONOFF_TOGGLE_BUTTON"
  shows "onoff_state (apply_event e s) = SYSTEM_OFF \<and>
         user_fan_speed (apply_event e s) = user_fan_speed s \<and>
         save_fan_speed (apply_event e s) = save_fan_speed s"
  using assms by (cases e) (auto simp: handler_defs Let_def)

lemma fold_apply_event_off:
  assumes "onoff_state s = SYSTEM_OFF" and "Click ONOFF_TOGGLE_BUTTON \<notin> set es"
  shows "onoff_state (fold apply_event es s) = SYSTEM_OFF \<and>
         user_fan_speed (fold apply_event es s) = user_fan_speed s \<and>
         save_fan_speed (fold apply_event es s) = save_fan_speed s"
  using assms
proof (induction es arbitrary: s)
  case Nil
  then show ?case by simp
next
  case (Cons e es)
  have e: "e \<noteq> Click ONOFF_TOGGLE_BUTTON" using Cons.prems by auto
  note st = apply_event_off [OF Cons.prems(1) e]
  have "Click ONOFF_TOGGLE_BUTTON \<notin> set es" using Cons.prems by auto
  from Cons.IH [OF _ this, of "apply_event e s"] st show ?case by simp
qed

text \<open>
  C3. From any state that is not off, a click of the power toggle switches the system
  off, and the next click of the power toggle switches it on again at the fan speed it
  had before the first click, whatever other logical events (clicks of the speed
  buttons, holds of any button) arrive while it is off.
\<close>

theorem power_round_trip:
  assumes "onoff_state s \<noteq> SYSTEM_OFF" and "Click ONOFF_TOGGLE_BUTTON \<notin> set es"
  shows "let s1 = process_button_click ONOFF_TOGGLE_BUTTON s;
             s2 = fold apply_event es s1;
             s3 = process_button_click ONOFF_TOGGLE_BUTTON s2
         in onoff_state s1 = SYSTEM_OFF \<and> user_fan_speed s1 = OFF_FAN_SPEED \<and>
            onoff_state s2 = SYSTEM_OFF \<and>
            onoff_state s3 = SYSTEM_ON \<and> user_fan_speed s3 = user_fan_speed s"
proof -
  define s1 where "s1 = process_button_click ONOFF_TOGGLE_BUTTON s"
  have a: "onoff_state s1 = SYSTEM_OFF" "user_fan_speed s1 = OFF_FAN_SPEED"
    "save_fan_speed s1 = Some (user_fan_speed s)"
    using assms(1)
    by (simp_all add: s1_def process_button_click_def process_onoff_click_def Let_def)
  note b = fold_apply_event_off [OF a(1) assms(2)]
  define s2 where "s2 = fold apply_event es s1"
  have c: "onoff_state s2 = SYSTEM_OFF" "save_fan_speed s2 = Some (user_fan_speed s)"
    using a b by (simp_all add: s2_def)
  have d: "onoff_state (process_button_click ONOFF_TOGGLE_BUTTON s2) = SYSTEM_ON"
    "user_fan_speed (process_button_click ONOFF_TOGGLE_BUTTON s2) = user_fan_speed s"
    using c
    by (simp_all add: process_button_click_def process_onoff_click_def Let_def static_init_def)
  show ?thesis
    using a c d unfolding Let_def s1_def [symmetric] s2_def [symmetric] by simp
qed

theorem power_round_trip_witness:
  "onoff_state (power_on\<lparr>user_fan_speed := 7\<rparr>) \<noteq> SYSTEM_OFF \<and>
   Click ONOFF_TOGGLE_BUTTON \<notin> set [Click SPEED_UP_BUTTON, Hold ONOFF_TOGGLE_BUTTON] \<and>
   onoff_state (process_button_click ONOFF_TOGGLE_BUTTON (power_on\<lparr>user_fan_speed := 7\<rparr>))
     = SYSTEM_OFF \<and>
   user_fan_speed
     (process_button_click ONOFF_TOGGLE_BUTTON
       (fold apply_event [Click SPEED_UP_BUTTON, Hold ONOFF_TOGGLE_BUTTON]
         (process_button_click ONOFF_TOGGLE_BUTTON (power_on\<lparr>user_fan_speed := 7\<rparr>)))) = 7"
proof -
  have a: "onoff_state (power_on\<lparr>user_fan_speed := 7\<rparr>) \<noteq> SYSTEM_OFF"
    by (simp add: power_on_def)
  have b: "Click ONOFF_TOGGLE_BUTTON \<notin> set [Click SPEED_UP_BUTTON, Hold ONOFF_TOGGLE_BUTTON]"
    by (simp add: button_ids)
  from power_round_trip [OF a b] a b show ?thesis by (simp add: Let_def)
qed

subsection \<open>Speed-up at the top of the PWM range\<close>



subsection \<open>The turbo prompt times out\<close>

lemma turbo_pass:
  assumes "onoff_state s = TURBO_REQUESTED" and "turbo_request_displayed_timer s = Some mark"
    and "\<not> turbo_requested_by_user s"
  shows "onoff_state (process_turbo_request t s) =
           (if expired mark TURBO_TEXT_DISPLAY_TIME_IN_MILLIS t \<or> user_fan_speed s = MAX_FAN_SPEED
            then SYSTEM_ON else TURBO_REQUESTED)"
    and "user_fan_speed (process_turbo_request t s) = user_fan_speed s"
    and "turbo_request_displayed_timer (process_turbo_request t s) = Some mark"
    and "\<not> turbo_requested_by_user (process_turbo_request t s)"
  using assms
  by (simp_all add: process_turbo_request_def turbo_request_enter_def turbo_request_exit_def
      Let_def static_init_def)

lemma turbo_waits:
  assumes "onoff_state s = TURBO_REQUESTED" and "turbo_request_displayed_timer s = Some mark"
    and "\<not> turbo_requested_by_user s" and "user_fan_speed s \<noteq> MAX_FAN_SPEED"
    and "\<forall>t \<in> set ts. \<not> expired mark TURBO_TEXT_DISPLAY_TIME_IN_MILLIS t"
  shows "onoff_state (fold process_turbo_request ts s) = TURBO_REQUESTED \<and>
         turbo_request_displayed_timer (fold process_turbo_request ts s) = Some mark \<and>
         \<not> turbo_requested_by_user (fold process_turbo_request ts s) \<and>
         user_fan_speed (fold process_turbo_request ts s) = user_fan_speed s"
  using assms
proof (induction ts arbitrary: s)
  case Nil
  then show ?case by simp
next
  case (Cons t ts)
  note p = turbo_pass [OF Cons.prems(1,2,3), of t]
  have "\<not> expired mark TURBO_TEXT_DISPLAY_TIME_IN_MILLIS t" using Cons.prems(5) by simp
  with p(1) Cons.prems(4) have a: "onoff_state (process_turbo_request t s) = TURBO_REQUESTED"
    by simp
  have b: "user_fan_speed (process_turbo_request t s) \<noteq> MAX_FAN_SPEED"
    using p(2) Cons.prems(4) by simp
  have c: "\<forall>t \<in> set ts. \<not> expired mark TURBO_TEXT_DISPLAY_TIME_IN_MILLIS t"
    using Cons.prems(5) by simp
  from Cons.IH [OF a p(3) p(4) b c] p(2) show ?case by simp
qed

subsection \<open>Power state, fan speed and saved speed\<close>

lemma boot_inv_click: "boot_inv s \<Longrightarrow> boot_inv (process_button_click i s)"
  by (auto simp: boot_inv_def handler_defs Let_def button_ids static_init_def)

lemma boot_inv_hold: "boot_inv s \<Longrightarrow> boot_inv (process_button_hold i s)"
  by (auto simp: boot_inv_def handler_defs Let_def button_ids)

lemma boot_inv_frame:
  "boot_inv (s\<lparr>last_button_state := a\<rparr>) = boot_inv s"
  "boot_inv (s\<lparr>last_interaction_timestamp := b\<rparr>) = boot_inv s"
  "boot_inv (s\<lparr>button_state := c\<rparr>) = boot_inv s"
  "boot_inv (s\<lparr>last_button_read := d\<rparr>) = boot_inv s"
  "boot_inv (s\<lparr>last_buttons_update := e\<rparr>) = boot_inv s"
  "boot_inv (s\<lparr>last_fan_update := f\<rparr>) = boot_inv s"
  "boot_inv (s\<lparr>last_display_update := g\<rparr>) = boot_inv s"
  "boot_inv (s\<lparr>outputs := h\<rparr>) = boot_inv s"
  by (simp_all add: boot_inv_def)

lemma boot_inv_body: "boot_inv s \<Longrightarrow> boot_inv (process_buttons_body t i s)"
  by (simp add: process_buttons_body_def Let_def set_timestamp_def boot_inv_click
      boot_inv_hold boot_inv_frame)

lemma boot_inv_poll_body: "boot_inv s \<Longrightarrow> boot_inv (poll_input_signals_body lv i s)"
  by (simp add: poll_input_signals_body_def Let_def boot_inv_frame)

lemma fold_preserves:
  assumes "\<And>i s. P s \<Longrightarrow> P (f i s)" and "P s"
  shows "P (fold f js s)"
  using assms(2) by (induction js arbitrary: s) (simp_all add: assms(1))

lemma boot_inv_turbo: "boot_inv s \<Longrightarrow> boot_inv (process_turbo_request t s)"
  by (auto simp: boot_inv_def process_turbo_request_def turbo_request_enter_def
      turbo_request_exit_def Let_def)

lemma boot_inv_button_schedule: "boot_inv s \<Longrightarrow> boot_inv (process_button_schedule x s)"
  by (simp add: process_button_schedule_def Let_def boot_inv_turbo process_buttons_def
      poll_input_signals_def for_buttons_def fold_preserves boot_inv_body boot_inv_poll_body
      boot_inv_frame)

lemma boot_inv_fan: "boot_inv s \<Longrightarrow> boot_inv (process_fan_schedule t s)"
  by (simp add: process_fan_schedule_def process_fan_speed_def process_fan_relay_def
      set_fan_speed_def Let_def boot_inv_frame)

lemma boot_inv_display: "boot_inv s \<Longrightarrow> boot_inv (process_display_schedule t s)"
  by (simp add: process_display_schedule_def process_display_updates_def boot_inv_frame
      split: power.split)

lemma boot_inv_wait:
  "boot_inv s \<Longrightarrow> boot_screen_wait t xs s = Some s' \<Longrightarrow> boot_inv s'"
proof (induction xs arbitrary: s)
  case Nil
  then show ?case by simp
next
  case (Cons x xs)
  show ?case
  proof (cases "t + BOOTSCREEN_DISPLAY_TIME_IN_MILLIS > now x")
    case False
    with Cons.prems show ?thesis by simp
  next
    case True
    have b: "boot_inv (process_button_schedule x s)"
      using Cons.prems(1) by (rule boot_inv_button_schedule)
    show ?thesis
    proof (cases "onoff_state (process_button_schedule x s) \<noteq> SYSTEM_OFF")
      case left: True
      with True Cons.prems(2) b show ?thesis by (simp add: Let_def)
    next
      case False
      with True Cons.prems(2)
      have "boot_screen_wait t xs (process_button_schedule x s) = Some s'"
        by (simp add: Let_def)
      with b show ?thesis by (rule Cons.IH)
    qed
  qed
qed

lemma boot_inv_setup: "arduino_setup t xs = Some s \<Longrightarrow> boot_inv s"
proof -
  assume a: "arduino_setup t xs = Some s"
  have "boot_inv (configure power_on)"
    by (simp add: boot_inv_def configure_def power_on_def Let_def)
  moreover from a obtain s' where "boot_screen_wait t xs (configure power_on) = Some s'"
    and "s = s'\<lparr>outputs := outputs s' @ [LcdClear]\<rparr>"
    by (auto simp: arduino_setup_def show_boot_screen_def)
  ultimately show ?thesis using boot_inv_wait by (auto simp: boot_inv_frame)
qed

lemma reachable_boot_inv: "reachable s \<Longrightarrow> boot_inv s"
  by (induction rule: reachable.induct)
     (simp_all add: boot_inv_setup loop_def boot_inv_display boot_inv_fan
       boot_inv_button_schedule)

lemma booted_fields:
  "onoff_state booted = SYSTEM_OFF"
  "user_fan_speed booted = 2"
  "save_fan_speed booted = None"
  "calls booted = []"
  "outputs booted = [DigitalWrite 7 False, DigitalWrite 4 True, LcdClear]"
  "last_fan_update booted = None"
  "last_display_update booted = None"
  "turbo_requested_by_user booted = False"
  unfolding booted_def boot_ticks_def by code_simp+

lemma setup_booted: "arduino_setup 0 boot_ticks = Some booted"
proof -
  have "map_option onoff_state (arduino_setup 0 boot_ticks) = Some SYSTEM_OFF"
    unfolding boot_ticks_def by code_simp
  then show ?thesis by (auto simp: booted_def)
qed

lemma reachable_booted: "reachable booted"
  using setup_booted by (rule reachable.after_setup)

text \<open>
  C2 (as stated, it fails). A boot screen left alone, polled at clock value 0 and found
  over at 2000: \<open>setup()\<close> returns with the power state off and the fan speed at its
  initial value 2, not 0.
\<close>

theorem off_speed_counterexample:
  "map_option onoff_state (arduino_setup 0 [idle 0, idle 2000]) = Some SYSTEM_OFF \<and>
   map_option user_fan_speed (arduino_setup 0 [idle 0, idle 2000]) = Some 2"
  by code_simp

text \<open>
  C2 (amended). In every state of the running system in which the power state is off,
  the fan speed is 0, unless the power toggle has not been clicked since the start: then
  the fan speed still has its initial value \<open>DEFAULT_FAN_SPEED\<close>.
\<close>

theorem off_speed:
  assumes "reachable s" and "onoff_state s = SYSTEM_OFF"
  shows "user_fan_speed s = OFF_FAN_SPEED \<or>
         (Click ONOFF_TOGGLE_BUTTON \<notin> set (calls s) \<and> user_fan_speed s = DEFAULT_FAN_SPEED)"
  using reachable_boot_inv [OF assms(1)] assms(2) by (auto simp: boot_inv_def)

theorem off_speed_witness:
  "reachable booted \<and> onoff_state booted = SYSTEM_OFF \<and>
   (user_fan_speed booted = OFF_FAN_SPEED \<or>
    (Click ONOFF_TOGGLE_BUTTON \<notin> set (calls booted) \<and>
     user_fan_speed booted = DEFAULT_FAN_SPEED))"
  using off_speed [OF reachable_booted booted_fields(1)] reachable_booted booted_fields(1)
  by simp

text \<open>
  C10. In every state of the running system in which the power toggle has not been
  clicked yet, the saved speed is not initialised, the power state is off and the fan
  speed is \<open>DEFAULT_FAN_SPEED\<close>; the click of the power toggle then initialises the saved
  speed to that value and switches the system on at fan speed 2.
\<close>

theorem first_power_click:
  assumes "reachable s" and "Click ONOFF_TOGGLE_BUTTON \<notin> set (calls s)"
  shows "save_fan_speed s = None \<and> onoff_state s = SYSTEM_OFF \<and>
         save_fan_speed (process_button_click ONOFF_TOGGLE_BUTTON s) = Some 2 \<and>
         onoff_state (process_button_click ONOFF_TOGGLE_BUTTON s) = SYSTEM_ON \<and>
         user_fan_speed (process_button_click ONOFF_TOGGLE_BUTTON s) = 2"
proof -
  from reachable_boot_inv [OF assms(1)] assms(2)
  have "save_fan_speed s = None" "onoff_state s = SYSTEM_OFF"
    "user_fan_speed s = DEFAULT_FAN_SPEED"
    by (auto simp: boot_inv_def)
  then show ?thesis
    by (simp add: process_button_click_def process_onoff_click_def Let_def static_init_def
        speed_consts)
qed

theorem first_power_click_witness:
  "reachable booted \<and> Click ONOFF_TOGGLE_BUTTON \<notin> set (calls booted) \<and>
   save_fan_speed booted = None \<and>
   user_fan_speed (process_button_click ONOFF_TOGGLE_BUTTON booted) = 2"
proof -
  have c: "Click ONOFF_TOGGLE_BUTTON \<notin> set (calls booted)" by (simp add: booted_fields)
  from first_power_click [OF reachable_booted c] reachable_booted c show ?thesis by simp
qed

subsection \<open>The timer comparison and the clock\<close>

lemma unat_millis: "unat (millis T) = T mod 2 ^ 32"
  by (simp add: millis_def unat_of_nat)

lemma expired_nat:
  "expired mark interval t \<longleftrightarrow> (unat mark + unat interval) mod 2 ^ 32 < unat t"
  by (simp add: expired_def word_less_nat_alt unat_word_ariths)

lemma same_epoch_diff:
  assumes "M \<le> N" and "M div 2 ^ 32 = N div (2 ^ 32 :: nat)"
  shows "N mod 2 ^ 32 = M mod 2 ^ 32 + (N - M)"
proof -
  have m: "M = (M div 2 ^ 32) * 2 ^ 32 + M mod 2 ^ 32" by simp
  have n: "N = (M div 2 ^ 32) * 2 ^ 32 + N mod 2 ^ 32" using assms(2) by simp
  from m n assms(1) show ?thesis by linarith
qed

lemma expired_same_epoch:
  assumes "M \<le> N" and "M div 2 ^ 32 = N div 2 ^ 32"
    and "M mod 2 ^ 32 + unat interval < 2 ^ 32"
  shows "expired (millis M) interval (millis N) \<longleftrightarrow> unat interval < N - M"
proof -
  have "(unat (millis M) + unat interval) mod 2 ^ 32 = M mod 2 ^ 32 + unat interval"
    using assms(3) by (simp add: unat_millis)
  moreover have "unat (millis N) = M mod 2 ^ 32 + (N - M)"
    using same_epoch_diff [OF assms(1,2)] by (simp add: unat_millis)
  ultimately show ?thesis by (simp add: expired_nat)
qed

text \<open>
  C8 (as stated, it fails). With the fan refresh interval of 10 ms: a mark 5 ms before
  the clock wraps is found expired 1 ms later; a mark 20 ms before the wrap is not found
  expired 25 ms later, 5 ms after the wrap.
\<close>

theorem expired_wrap_counterexample:
  "expired (millis 4294967291) FAN_REFRESH_RATE_MILLIS (millis 4294967292) \<and>
   \<not> unat FAN_REFRESH_RATE_MILLIS < 4294967292 - 4294967291 \<and>
   \<not> expired (millis 4294967276) FAN_REFRESH_RATE_MILLIS (millis 4294967301) \<and>
   unat FAN_REFRESH_RATE_MILLIS < 4294967301 - 4294967276"
  by (simp add: expired_def millis_def time_consts)

text \<open>
  C8 (amended). The comparison used by the hold timer, the debounce timer, the turbo
  prompt timer and the two rate gates decides whether more than \<open>interval\<close> milliseconds
  have passed between the time \<open>M\<close> of the mark and the time \<open>N\<close> of the test, provided
  the clock has not wrapped between the two and the mark plus the interval does not
  overflow 32 bits. It is not safe across the wrap of the clock.
\<close>

theorem expired_without_wrap:
  assumes "M \<le> N" and "M div 2 ^ 32 = N div 2 ^ 32"
    and "M mod 2 ^ 32 + unat interval < 2 ^ 32"
    and "interval \<in> {BUTTON_HOLD_FOR_TURBO_DELAY_IN_MILLIS, DEBOUNCE_DELAY_MILLS,
           TURBO_TEXT_DISPLAY_TIME_IN_MILLIS, FAN_REFRESH_RATE_MILLIS,
           DISPLAY_REFRESH_RATE_MILLIS}"
  shows "expired (millis M) interval (millis N) \<longleftrightarrow> unat interval < N - M"
  using assms(1,2,3) by (rule expired_same_epoch)

theorem expired_without_wrap_witness:
  "(1000::nat) \<le> 1011 \<and> (1000::nat) div 2 ^ 32 = 1011 div 2 ^ 32 \<and>
   (1000::nat) mod 2 ^ 32 + unat FAN_REFRESH_RATE_MILLIS < 2 ^ 32 \<and>
   expired (millis 1000) FAN_REFRESH_RATE_MILLIS (millis 1011) \<and>
   unat FAN_REFRESH_RATE_MILLIS < 1011 - 1000"
proof -
  have a: "(1000::nat) \<le> 1011" by simp
  have b: "(1000::nat) div 2 ^ 32 = 1011 div 2 ^ 32" by simp
  have c: "(1000::nat) mod 2 ^ 32 + unat FAN_REFRESH_RATE_MILLIS < 2 ^ 32"
    by (simp add: time_consts)
  have d: "unat FAN_REFRESH_RATE_MILLIS < 1011 - 1000" by (simp add: time_consts)
  have e: "FAN_REFRESH_RATE_MILLIS \<in> {BUTTON_HOLD_FOR_TURBO_DELAY_IN_MILLIS,
     DEBOUNCE_DELAY_MILLS, TURBO_TEXT_DISPLAY_TIME_IN_MILLIS, FAN_REFRESH_RATE_MILLIS,
     DISPLAY_REFRESH_RATE_MILLIS}" by simp
  from expired_without_wrap [OF a b c e] a b c d show ?thesis by simp
qed

subsection \<open>The turbo prompt and elapsed time\<close>

lemma late_prompt_fields:
  "onoff_state late_prompt = TURBO_REQUESTED"
  "turbo_request_displayed_timer late_prompt = Some (millis 4294966795)"
  "user_fan_speed late_prompt = 9"
  "\<not> turbo_requested_by_user late_prompt"
  by (simp_all add: late_prompt_def process_turbo_request_def turbo_request_enter_def
      turbo_request_exit_def expired_def millis_def Let_def static_init_def handler_defs
      button_ids speed_consts time_consts power_on_def)

text \<open>
  C5 (as stated, it fails). The prompt is entered at clock value 4294966795 and no
  further input arrives. Passes 500 ms, 506 ms and 1501 ms later (the clock wraps in
  between) all leave the state \<open>TURBO_REQUESTED\<close>: the mark plus the prompt time is the
  largest clock value, which no clock value exceeds.
\<close>

theorem turbo_prompt_wrap_counterexample:
  "onoff_state late_prompt = TURBO_REQUESTED \<and>
   turbo_request_displayed_timer late_prompt = Some (millis 4294966795) \<and>
   onoff_state
     (fold process_turbo_request [millis 4294967295, millis 4294967301, millis 4294968296]
        late_prompt) = TURBO_REQUESTED \<and>
   unat TURBO_TEXT_DISPLAY_TIME_IN_MILLIS < 4294967301 - 4294966795"
proof -
  have n: "\<forall>t \<in> set [millis 4294967295, millis 4294967301, millis 4294968296].
             \<not> expired (millis 4294966795) TURBO_TEXT_DISPLAY_TIME_IN_MILLIS t"
    by (simp add: expired_def millis_def time_consts)
  have s: "user_fan_speed late_prompt \<noteq> MAX_FAN_SPEED"
    by (simp add: late_prompt_fields speed_consts)
  from turbo_waits [OF late_prompt_fields(1,2,4) s n] late_prompt_fields
  show ?thesis by (simp add: time_consts)
qed

text \<open>
  C5 (amended). Let the state be \<open>TURBO_REQUESTED\<close> with the prompt timer started at
  time \<open>M\<close>, let no input arrive (the turbo request flag stays clear), let \<open>M\<close> plus the
  prompt time not overflow the 32-bit clock, and let the clock not wrap between \<open>M\<close>
  and the passes considered. Over passes of \<open>process_turbo_request\<close> made no more than
  \<open>TURBO_TEXT_DISPLAY_TIME_IN_MILLIS\<close> after \<open>M\<close> the state stays \<open>TURBO_REQUESTED\<close>;
  the first pass made more than that after \<open>M\<close> returns the state to \<open>SYSTEM_ON\<close>, and
  the fan speed is what it was. A pass at which the fan speed is 10 leaves
  \<open>TURBO_REQUESTED\<close> for \<open>SYSTEM_ON\<close> at any clock value.
\<close>

theorem turbo_prompt_timeout:
  assumes "onoff_state s = TURBO_REQUESTED"
    and "turbo_request_displayed_timer s = Some (millis M)"
    and "\<not> turbo_requested_by_user s"
  shows "(user_fan_speed s \<noteq> MAX_FAN_SPEED \<and>
          M mod 2 ^ 32 + unat TURBO_TEXT_DISPLAY_TIME_IN_MILLIS < 2 ^ 32 \<and>
          (\<forall>N \<in> set (N' # Ns). M \<le> N \<and> M div 2 ^ 32 = N div 2 ^ 32) \<and>
          (\<forall>N \<in> set Ns. N - M \<le> unat TURBO_TEXT_DISPLAY_TIME_IN_MILLIS) \<and>
          unat TURBO_TEXT_DISPLAY_TIME_IN_MILLIS < N' - M
          \<longrightarrow> onoff_state (fold process_turbo_request (map millis Ns) s) = TURBO_REQUESTED \<and>
              onoff_state
                (process_turbo_request (millis N') (fold process_turbo_request (map millis Ns) s))
                = SYSTEM_ON \<and>
              user_fan_speed
                (process_turbo_request (millis N') (fold process_turbo_request (map millis Ns) s))
                = user_fan_speed s) \<and>
         (user_fan_speed s = MAX_FAN_SPEED
          \<longrightarrow> onoff_state (process_turbo_request t s) = SYSTEM_ON \<and>
              user_fan_speed (process_turbo_request t s) = user_fan_speed s)"
proof -
  have 1: "onoff_state (fold process_turbo_request (map millis Ns) s) = TURBO_REQUESTED \<and>
           onoff_state
             (process_turbo_request (millis N') (fold process_turbo_request (map millis Ns) s))
             = SYSTEM_ON \<and>
           user_fan_speed
             (process_turbo_request (millis N') (fold process_turbo_request (map millis Ns) s))
             = user_fan_speed s"
    if h: "user_fan_speed s \<noteq> MAX_FAN_SPEED"
      "M mod 2 ^ 32 + unat TURBO_TEXT_DISPLAY_TIME_IN_MILLIS < 2 ^ 32"
      "\<forall>N \<in> set (N' # Ns). M \<le> N \<and> M div 2 ^ 32 = N div 2 ^ 32"
      "\<forall>N \<in> set Ns. N - M \<le> unat TURBO_TEXT_DISPLAY_TIME_IN_MILLIS"
      "unat TURBO_TEXT_DISPLAY_TIME_IN_MILLIS < N' - M"
  proof -
    have e: "expired (millis M) TURBO_TEXT_DISPLAY_TIME_IN_MILLIS (millis N) \<longleftrightarrow>
             unat TURBO_TEXT_DISPLAY_TIME_IN_MILLIS < N - M" if "N \<in> set (N' # Ns)" for N
      using h(3) that by (intro expired_same_epoch h(2)) auto
    have q: "\<forall>t \<in> set (map millis Ns).
               \<not> expired (millis M) TURBO_TEXT_DISPLAY_TIME_IN_MILLIS t"
      using h(4) e by auto
    from turbo_waits [OF assms(1,2,3) h(1) q]
    have w1: "onoff_state (fold process_turbo_request (map millis Ns) s) = TURBO_REQUESTED"
      and w2: "turbo_request_displayed_timer (fold process_turbo_request (map millis Ns) s)
                 = Some (millis M)"
      and w3: "\<not> turbo_requested_by_user (fold process_turbo_request (map millis Ns) s)"
      and w4: "user_fan_speed (fold process_turbo_request (map millis Ns) s) = user_fan_speed s"
      by simp_all
    note p = turbo_pass [OF w1 w2 w3, of "millis N'"]
    have "expired (millis M) TURBO_TEXT_DISPLAY_TIME_IN_MILLIS (millis N')"
      using e [of N'] h(5) by simp
    with p(1) p(2) w1 w4 show ?thesis by simp
  qed
  have 2: "onoff_state (process_turbo_request t s) = SYSTEM_ON \<and>
           user_fan_speed (process_turbo_request t s) = user_fan_speed s"
    if "user_fan_speed s = MAX_FAN_SPEED"
    using turbo_pass(1,2) [OF assms(1,2,3), of t] that by simp
  from 1 2 show ?thesis by blast
qed

theorem turbo_prompt_timeout_witness:
  "onoff_state (prompting_at 1000) = TURBO_REQUESTED \<and>
   turbo_request_displayed_timer (prompting_at 1000) = Some (millis 1000) \<and>
   \<not> turbo_requested_by_user (prompting_at 1000) \<and>
   (1000::nat) mod 2 ^ 32 + unat TURBO_TEXT_DISPLAY_TIME_IN_MILLIS < 2 ^ 32 \<and>
   list_all (\<lambda>N. 1000 \<le> N \<and> 1000 div 2 ^ 32 = N div 2 ^ 32) [1501, 1001, 1250, 1500 :: nat] \<and>
   user_fan_speed (prompting_at 1000) \<noteq> MAX_FAN_SPEED \<and>
   list_all (\<lambda>N. N - 1000 \<le> unat TURBO_TEXT_DISPLAY_TIME_IN_MILLIS) [1001, 1250, 1500] \<and>
   unat TURBO_TEXT_DISPLAY_TIME_IN_MILLIS < 1501 - 1000 \<and>
   onoff_state (fold process_turbo_request (map millis [1001, 1250, 1500]) (prompting_at 1000))
     = TURBO_REQUESTED \<and>
   onoff_state
     (process_turbo_request (millis 1501)
        (fold process_turbo_request (map millis [1001, 1250, 1500]) (prompting_at 1000)))
     = SYSTEM_ON \<and>
   user_fan_speed
     (process_turbo_request (millis 1501)
        (fold process_turbo_request (map millis [1001, 1250, 1500]) (prompting_at 1000))) = 9 \<and>
   user_fan_speed (prompting_at 1000\<lparr>user_fan_speed := 10\<rparr>) = MAX_FAN_SPEED \<and>
   onoff_state (process_turbo_request 1001 (prompting_at 1000\<lparr>user_fan_speed := 10\<rparr>))
     = SYSTEM_ON"
proof -
  have a: "onoff_state (prompting_at 1000) = TURBO_REQUESTED" by (simp add: prompting_at_def)
  have b: "turbo_request_displayed_timer (prompting_at 1000) = Some (millis 1000)"
    by (simp add: prompting_at_def)
  have c: "\<not> turbo_requested_by_user (prompting_at 1000)"
    by (simp add: prompting_at_def power_on_def)
  have d: "(1000::nat) mod 2 ^ 32 + unat TURBO_TEXT_DISPLAY_TIME_IN_MILLIS < 2 ^ 32"
    by (simp add: time_consts)
  have e: "\<forall>N \<in> set (1501 # [1001, 1250, 1500]). (1000::nat) \<le> N \<and> 1000 div 2 ^ 32 = N div 2 ^ 32"
    by simp
  have f: "user_fan_speed (prompting_at 1000) \<noteq> MAX_FAN_SPEED"
    by (simp add: prompting_at_def speed_consts)
  have g: "\<forall>N \<in> set [1001, 1250, 1500]. N - 1000 \<le> unat TURBO_TEXT_DISPLAY_TIME_IN_MILLIS"
    by (simp add: time_consts)
  have h: "unat TURBO_TEXT_DISPLAY_TIME_IN_MILLIS < 1501 - 1000" by (simp add: time_consts)
  have i: "user_fan_speed (prompting_at 1000) = 9" by (simp add: prompting_at_def)
  have a': "onoff_state (prompting_at 1000\<lparr>user_fan_speed := 10\<rparr>) = TURBO_REQUESTED"
    by (simp add: prompting_at_def)
  have b': "turbo_request_displayed_timer (prompting_at 1000\<lparr>user_fan_speed := 10\<rparr>)
              = Some (millis 1000)"
    by (simp add: prompting_at_def)
  have c': "\<not> turbo_requested_by_user (prompting_at 1000\<lparr>user_fan_speed := 10\<rparr>)"
    by (simp add: prompting_at_def power_on_def)
  have d': "user_fan_speed (prompting_at 1000\<lparr>user_fan_speed := 10\<rparr>) = MAX_FAN_SPEED"
    by (simp add: speed_consts)
  from turbo_prompt_timeout [OF a b c, of 1501 "[1001, 1250, 1500]" 0]
    turbo_prompt_timeout [OF a' b' c', of 1501 "[]" 1001] d e f g h i d'
  have "onoff_state (fold process_turbo_request (map millis [1001, 1250, 1500]) (prompting_at 1000))
     = TURBO_REQUESTED \<and>
   onoff_state
     (process_turbo_request (millis 1501)
        (fold process_turbo_request (map millis [1001, 1250, 1500]) (prompting_at 1000)))
     = SYSTEM_ON \<and>
   user_fan_speed
     (process_turbo_request (millis 1501)
        (fold process_turbo_request (map millis [1001, 1250, 1500]) (prompting_at 1000))) = 9 \<and>
   onoff_state (process_turbo_request 1001 (prompting_at 1000\<lparr>user_fan_speed := 10\<rparr>))
     = SYSTEM_ON"
    by simp
  with a b c d e f g h d' show ?thesis by (simp add: list_all_iff)
qed

subsection \<open>The rate gates\<close>

lemma fan_run_mark:
  "fan_due t s \<Longrightarrow> last_fan_update (process_fan_schedule t s) = Some t"
  by (simp add: process_fan_schedule_def process_fan_speed_def process_fan_relay_def
      set_fan_speed_def Let_def)

lemma display_run_mark:
  "display_due t s \<Longrightarrow> last_display_update (process_display_schedule t s) = Some t"
  by (simp add: process_display_schedule_def process_display_updates_def split: power.split)

text \<open>
  C9 (as stated, it fails). The fan task first runs at clock value 2000 in the state
  \<open>setup()\<close> returned, which records 2000; at 2010, when the interval of 10 ms has
  elapsed, it writes nothing. And with a last run recorded 26 ms before the clock wraps,
  the task runs 5 ms before the wrap and again 1 ms later.
\<close>

theorem rate_gates_counterexample:
  "outputs (process_fan_schedule (millis 2010) (process_fan_schedule (millis 2000) booted)) =
     outputs booted \<and>
   unat FAN_REFRESH_RATE_MILLIS \<le> 2010 - 2000 \<and>
   fan_due (millis 4294967291) (booted\<lparr>last_fan_update := Some (millis 4294967270)\<rparr>) \<and>
   fan_due (millis 4294967292)
     (process_fan_schedule (millis 4294967291)
        (booted\<lparr>last_fan_update := Some (millis 4294967270)\<rparr>)) \<and>
   \<not> unat FAN_REFRESH_RATE_MILLIS < 4294967292 - 4294967291"
proof -
  have a: "outputs (process_fan_schedule (millis 2010)
      (process_fan_schedule (millis 2000) booted)) = outputs booted"
    by (simp add: process_fan_schedule_def fan_due_def expired_def static_init_def millis_def
        time_consts booted_fields)
  have b: "fan_due (millis 4294967291) (booted\<lparr>last_fan_update := Some (millis 4294967270)\<rparr>)"
    by (simp add: fan_due_def expired_def static_init_def millis_def time_consts)
  have c: "fan_due (millis 4294967292)
     (process_fan_schedule (millis 4294967291)
        (booted\<lparr>last_fan_update := Some (millis 4294967270)\<rparr>))"
    using fan_run_mark [OF b]
    by (simp add: fan_due_def expired_def static_init_def millis_def time_consts)
  from a b c show ?thesis by (simp add: time_consts)
qed

text \<open>
  C9 (amended). Let the clock not wrap between the times \<open>M\<close> and \<open>N\<close>. A call of the
  fan task at \<open>N\<close>, with its last run recorded at \<open>M\<close> and \<open>M\<close> plus
  \<open>FAN_REFRESH_RATE_MILLIS\<close> not overflowing the 32-bit clock, executes its body if more
  than \<open>FAN_REFRESH_RATE_MILLIS\<close> have elapsed since \<open>M\<close> and otherwise leaves the state
  as it is; the same holds of the display task with \<open>DISPLAY_REFRESH_RATE_MILLIS\<close>. So
  two runs of a task, at \<open>M\<close> and then at \<open>N\<close>, are more than its interval apart.
\<close>

theorem rate_gates:
  assumes "M \<le> N" and "M div 2 ^ 32 = N div 2 ^ 32"
  shows
    "(M mod 2 ^ 32 + unat FAN_REFRESH_RATE_MILLIS < 2 ^ 32 \<and>
      last_fan_update s = Some (millis M) \<longrightarrow>
        process_fan_schedule (millis N) s =
          (if unat FAN_REFRESH_RATE_MILLIS < N - M
           then process_fan_speed (process_fan_relay (s\<lparr>last_fan_update := Some (millis N)\<rparr>))
           else s)) \<and>
     (M mod 2 ^ 32 + unat DISPLAY_REFRESH_RATE_MILLIS < 2 ^ 32 \<and>
      last_display_update s = Some (millis M) \<longrightarrow>
        process_display_schedule (millis N) s =
          (if unat DISPLAY_REFRESH_RATE_MILLIS < N - M
           then process_display_updates (s\<lparr>last_display_update := Some (millis N)\<rparr>)
           else s)) \<and>
     (M mod 2 ^ 32 + unat FAN_REFRESH_RATE_MILLIS < 2 ^ 32 \<and>
      fan_due (millis M) r \<and> fan_due (millis N) (process_fan_schedule (millis M) r)
        \<longrightarrow> unat FAN_REFRESH_RATE_MILLIS < N - M) \<and>
     (M mod 2 ^ 32 + unat DISPLAY_REFRESH_RATE_MILLIS < 2 ^ 32 \<and>
      display_due (millis M) r \<and>
      display_due (millis N) (process_display_schedule (millis M) r)
        \<longrightarrow> unat DISPLAY_REFRESH_RATE_MILLIS < N - M)"
proof -
  note e = expired_same_epoch [OF assms(1,2)]
  have 1: "M mod 2 ^ 32 + unat FAN_REFRESH_RATE_MILLIS < 2 ^ 32 \<and>
      last_fan_update s = Some (millis M) \<longrightarrow>
        process_fan_schedule (millis N) s =
          (if unat FAN_REFRESH_RATE_MILLIS < N - M
           then process_fan_speed (process_fan_relay (s\<lparr>last_fan_update := Some (millis N)\<rparr>))
           else s)"
    using e [of FAN_REFRESH_RATE_MILLIS]
    by (simp add: process_fan_schedule_def fan_due_def static_init_def)
  have 2: "M mod 2 ^ 32 + unat DISPLAY_REFRESH_RATE_MILLIS < 2 ^ 32 \<and>
      last_display_update s = Some (millis M) \<longrightarrow>
        process_display_schedule (millis N) s =
          (if unat DISPLAY_REFRESH_RATE_MILLIS < N - M
           then process_display_updates (s\<lparr>last_display_update := Some (millis N)\<rparr>)
           else s)"
    using e [of DISPLAY_REFRESH_RATE_MILLIS]
    by (simp add: process_display_schedule_def display_due_def static_init_def)
  have 3: "M mod 2 ^ 32 + unat FAN_REFRESH_RATE_MILLIS < 2 ^ 32 \<and>
      fan_due (millis M) r \<and> fan_due (millis N) (process_fan_schedule (millis M) r)
        \<longrightarrow> unat FAN_REFRESH_RATE_MILLIS < N - M"
    using e [of FAN_REFRESH_RATE_MILLIS] fan_run_mark [of "millis M" r]
    by (auto simp: fan_due_def static_init_def)
  have 4: "M mod 2 ^ 32 + unat DISPLAY_REFRESH_RATE_MILLIS < 2 ^ 32 \<and>
      display_due (millis M) r \<and>
      display_due (millis N) (process_display_schedule (millis M) r)
        \<longrightarrow> unat DISPLAY_REFRESH_RATE_MILLIS < N - M"
    using e [of DISPLAY_REFRESH_RATE_MILLIS] display_run_mark [of "millis M" r]
    by (auto simp: display_due_def static_init_def)
  from 1 2 3 4 show ?thesis by blast
qed

theorem rate_gates_witness:
  "(2000::nat) \<le> 2101 \<and> (2000::nat) div 2 ^ 32 = 2101 div 2 ^ 32 \<and>
   (2000::nat) mod 2 ^ 32 + unat FAN_REFRESH_RATE_MILLIS < 2 ^ 32 \<and>
   (2000::nat) mod 2 ^ 32 + unat DISPLAY_REFRESH_RATE_MILLIS < 2 ^ 32 \<and>
   last_fan_update (gated 2000) = Some (millis 2000) \<and>
   last_display_update (gated 2000) = Some (millis 2000) \<and>
   process_fan_schedule (millis 2101) (gated 2000) =
     process_fan_speed (process_fan_relay (gated 2000\<lparr>last_fan_update := Some (millis 2101)\<rparr>)) \<and>
   process_display_schedule (millis 2101) (gated 2000) =
     process_display_updates (gated 2000\<lparr>last_display_update := Some (millis 2101)\<rparr>) \<and>
   fan_due (millis 2000) (gated 1000) \<and>
   fan_due (millis 2101) (process_fan_schedule (millis 2000) (gated 1000)) \<and>
   display_due (millis 2000) (gated 1000) \<and>
   display_due (millis 2101) (process_display_schedule (millis 2000) (gated 1000)) \<and>
   unat FAN_REFRESH_RATE_MILLIS < 2101 - 2000 \<and>
   unat DISPLAY_REFRESH_RATE_MILLIS < 2101 - 2000"
proof -
  have a: "(2000::nat) \<le> 2101" by simp
  have b: "(2000::nat) div 2 ^ 32 = 2101 div 2 ^ 32" by simp
  have c: "(2000::nat) mod 2 ^ 32 + unat FAN_REFRESH_RATE_MILLIS < 2 ^ 32"
    "(2000::nat) mod 2 ^ 32 + unat DISPLAY_REFRESH_RATE_MILLIS < 2 ^ 32"
    by (simp_all add: time_consts)
  have d: "last_fan_update (gated 2000) = Some (millis 2000)"
    "last_display_update (gated 2000) = Some (millis 2000)"
    by (simp_all add: gated_def)
  have e: "fan_due (millis 2000) (gated 1000)" "display_due (millis 2000) (gated 1000)"
    by (simp_all add: gated_def fan_due_def display_due_def expired_def static_init_def
        millis_def time_consts)
  have f: "fan_due (millis 2101) (process_fan_schedule (millis 2000) (gated 1000))"
    using fan_run_mark [OF e(1)]
    by (simp add: fan_due_def expired_def static_init_def millis_def time_consts)
  have g: "display_due (millis 2101) (process_display_schedule (millis 2000) (gated 1000))"
    using display_run_mark [OF e(2)]
    by (simp add: display_due_def expired_def static_init_def millis_def time_consts)
  have h: "unat FAN_REFRESH_RATE_MILLIS < 2101 - 2000"
    "unat DISPLAY_REFRESH_RATE_MILLIS < 2101 - 2000"
    by (simp_all add: time_consts)
  from rate_gates [OF a b, of "gated 2000" "gated 1000"] a b c d e f g h
  show ?thesis by simp
qed

subsection \<open>What one pass of the event resolver does to one button\<close>

lemma handler_frame:
  "button_state (process_button_click i s) = button_state s"
  "last_button_state (process_button_click i s) = last_button_state s"
  "last_interaction_timestamp (process_button_click i s) = last_interaction_timestamp s"
  "calls (process_button_click i s) = calls s @ [Click i]"
  "button_state (process_button_hold i s) = button_state s"
  "last_button_state (process_button_hold i s) = last_button_state s"
  "last_interaction_timestamp (process_button_hold i s) = last_interaction_timestamp s"
  "calls (process_button_hold i s) = calls s @ [Hold i]"
  by (simp_all add: handler_defs Let_def)

lemma body_calls: "calls (process_buttons_body t i s) = calls s @ fires t s i"
  by (simp add: process_buttons_body_def fires_def Let_def set_timestamp_def handler_frame)

lemma body_button_state: "button_state (process_buttons_body t i s) = button_state s"
  by (simp add: process_buttons_body_def Let_def set_timestamp_def handler_frame)

lemma body_timestamp_other:
  "j \<noteq> i \<Longrightarrow> timestamp t (process_buttons_body t i s) j = timestamp t s j"
  by (simp add: process_buttons_body_def Let_def set_timestamp_def handler_frame
      timestamp_def static_init_def split: option.split)

lemma body_flag_other:
  "j \<noteq> i \<Longrightarrow> last_button_state (process_buttons_body t i s) j = last_button_state s j"
  by (simp add: process_buttons_body_def Let_def set_timestamp_def handler_frame)

lemma body_fires_other: "j \<noteq> i \<Longrightarrow> fires t (process_buttons_body t i s) j = fires t s j"
  by (simp add: fires_def body_button_state body_timestamp_other body_flag_other)

lemma fold_body_calls:
  "distinct js \<Longrightarrow>
   calls (fold (process_buttons_body t) js s) = calls s @ concat (map (fires t s) js)"
proof (induction js arbitrary: s)
  case Nil
  then show ?case by simp
next
  case (Cons j js)
  have "\<And>i. i \<in> set js \<Longrightarrow> fires t (process_buttons_body t j s) i = fires t s i"
    using Cons.prems by (intro body_fires_other) auto
  then have m: "concat (map (fires t (process_buttons_body t j s)) js) =
                concat (map (fires t s) js)"
    by (simp cong: map_cong)
  have d: "distinct js" using Cons.prems by simp
  show ?case by (simp add: Cons.IH [OF d] body_calls m)
qed

lemma fold_body_button_state:
  "button_state (fold (process_buttons_body t) js s) = button_state s"
  by (induction js arbitrary: s) (simp_all add: body_button_state)

lemma fold_body_flag:
  "distinct js \<Longrightarrow>
   last_button_state (fold (process_buttons_body t) js s) b =
     (if b \<in> set js then last_button_state (process_buttons_body t b s) b
      else last_button_state s b)"
proof (induction js arbitrary: s)
  case Nil
  then show ?case by simp
next
  case (Cons j js)
  show ?case
  proof (cases "b = j")
    case True
    with Cons show ?thesis by simp
  next
    case False
    have "last_button_state (process_buttons_body t b (process_buttons_body t j s)) b =
          last_button_state (process_buttons_body t b s) b"
      using False
      by (simp add: process_buttons_body_def [of t b] Let_def set_timestamp_def handler_frame
          body_button_state body_timestamp_other body_flag_other)
    with Cons False show ?thesis by (simp add: body_flag_other)
  qed
qed

lemma fires_of_button: "filter (of_button b) (fires t s i) = (if i = b then fires t s b else [])"
  by (auto simp: fires_def of_button_def)

lemma concat_fires_of_button:
  "distinct js \<Longrightarrow>
   filter (of_button b) (concat (map (fires t s) js)) = (if b \<in> set js then fires t s b else [])"
  by (induction js) (auto simp: fires_of_button)

lemma fires_statics:
  "fires t (s\<lparr>last_interaction_timestamp :=
      Some (static_init (\<lambda>_. t) (last_interaction_timestamp s))\<rparr>) = fires t s"
  by (rule ext) (simp add: fires_def timestamp_def static_init_def split: option.split)

lemma process_buttons_calls:
  "calls (process_buttons i0 t s) = calls s @ concat (map (fires t s) [i0 ..< NUMBER_OF_BUTTONS])"
  by (simp add: process_buttons_def for_buttons_def fold_body_calls fires_statics)

lemma process_buttons_new_calls:
  "filter (of_button b) (new_calls s (process_buttons i0 t s)) =
     (if i0 \<le> b \<and> b < NUMBER_OF_BUTTONS then fires t s b else [])"
  by (simp add: new_calls_def process_buttons_calls concat_fires_of_button)

lemma process_buttons_button_state:
  "button_state (process_buttons i0 t s) = button_state s"
  by (simp add: process_buttons_def for_buttons_def fold_body_button_state)

lemma body_flag_statics:
  "last_button_state (process_buttons_body t b (s\<lparr>last_interaction_timestamp :=
      Some (static_init (\<lambda>_. t) (last_interaction_timestamp s))\<rparr>)) b =
   last_button_state (process_buttons_body t b s) b"
  by (simp add: process_buttons_body_def Let_def set_timestamp_def handler_frame
      timestamp_def static_init_def split: option.split)

lemma process_buttons_flag:
  "last_button_state (process_buttons i0 t s) b =
     (if i0 \<le> b \<and> b < NUMBER_OF_BUTTONS then last_button_state (process_buttons_body t b s) b
      else last_button_state s b)"
  by (simp add: process_buttons_def for_buttons_def fold_body_flag body_flag_statics)

subsection \<open>At most one event until the button is armed again\<close>

lemma fold_field:
  assumes "\<And>i s. g (f i s) = g s"
  shows "g (fold f js s) = g s"
  by (induction js arbitrary: s) (simp_all add: assms)

lemma poll_frame:
  "calls (poll_input_signals i0 lv s) = calls s"
  "last_button_state (poll_input_signals i0 lv s) = last_button_state s"
  "last_interaction_timestamp (poll_input_signals i0 lv s) = last_interaction_timestamp s"
  unfolding poll_input_signals_def for_buttons_def
  by (rule fold_field, simp add: poll_input_signals_body_def Let_def)+

lemma turbo_frame:
  "calls (process_turbo_request t s) = calls s"
  "button_state (process_turbo_request t s) = button_state s"
  "last_button_state (process_turbo_request t s) = last_button_state s"
  "last_interaction_timestamp (process_turbo_request t s) = last_interaction_timestamp s"
  by (simp_all add: process_turbo_request_def turbo_request_enter_def Let_def)

lemma body_arming:
  "fires t s b \<noteq> [] \<Longrightarrow>
     last_button_state s b = NOT_PROCESSED \<and> length (fires t s b) = 1 \<and>
     last_button_state (process_buttons_body t b s) b = PROCESSED"
  "fires t s b = [] \<Longrightarrow> last_button_state (process_buttons_body t b s) b = NOT_PROCESSED \<Longrightarrow>
     last_button_state s b = NOT_PROCESSED \<or> button_state s b = IS_NOT_PRESSED"
  by (auto simp: fires_def process_buttons_body_def Let_def set_timestamp_def handler_frame
      split: if_splits)

lemma tick_frame:
  "button_state (process_button_schedule x s) =
     button_state (poll_input_signals (poll_start x) (level x)
       (s\<lparr>last_buttons_update := Some (now x)\<rparr>))"
  "filter (of_button b) (new_calls s (process_button_schedule x s)) =
     (if buttons_start x \<le> b \<and> b < NUMBER_OF_BUTTONS
      then fires (now x) (poll_input_signals (poll_start x) (level x)
             (s\<lparr>last_buttons_update := Some (now x)\<rparr>)) b
      else [])"
  "last_button_state (process_button_schedule x s) b =
     (if buttons_start x \<le> b \<and> b < NUMBER_OF_BUTTONS
      then last_button_state (process_buttons_body (now x) b
             (poll_input_signals (poll_start x) (level x)
               (s\<lparr>last_buttons_update := Some (now x)\<rparr>))) b
      else last_button_state s b)"
proof -
  let ?s1 = "poll_input_signals (poll_start x) (level x) (s\<lparr>last_buttons_update := Some (now x)\<rparr>)"
  have e: "process_button_schedule x s =
    process_turbo_request (now x) (process_buttons (buttons_start x) (now x) ?s1)"
    by (simp add: process_button_schedule_def Let_def)
  show "button_state (process_button_schedule x s) = button_state ?s1"
    by (simp add: e turbo_frame process_buttons_button_state)
  have c: "calls ?s1 = calls s" by (simp add: poll_frame)
  have "new_calls s (process_button_schedule x s) =
        new_calls ?s1 (process_buttons (buttons_start x) (now x) ?s1)"
    by (simp add: new_calls_def e turbo_frame c)
  then show "filter (of_button b) (new_calls s (process_button_schedule x s)) =
     (if buttons_start x \<le> b \<and> b < NUMBER_OF_BUTTONS then fires (now x) ?s1 b else [])"
    by (simp add: process_buttons_new_calls)
  show "last_button_state (process_button_schedule x s) b =
     (if buttons_start x \<le> b \<and> b < NUMBER_OF_BUTTONS
      then last_button_state (process_buttons_body (now x) b ?s1) b
      else last_button_state s b)"
    by (simp add: e turbo_frame process_buttons_flag poll_frame)
qed

lemma tick_arming:
  fixes x s b
  defines "s' \<equiv> process_button_schedule x s"
  defines "es \<equiv> filter (of_button b) (new_calls s s')"
  shows "es \<noteq> [] \<Longrightarrow>
           last_button_state s b = NOT_PROCESSED \<and> length es = 1 \<and>
           last_button_state s' b \<noteq> NOT_PROCESSED"
    and "es = [] \<Longrightarrow> last_button_state s' b = NOT_PROCESSED \<Longrightarrow>
           last_button_state s b = NOT_PROCESSED \<or> button_state s' b = IS_NOT_PRESSED"
proof -
  let ?s1 = "poll_input_signals (poll_start x) (level x) (s\<lparr>last_buttons_update := Some (now x)\<rparr>)"
  have f: "last_button_state ?s1 b = last_button_state s b" by (simp add: poll_frame)
  show "es \<noteq> [] \<Longrightarrow>
           last_button_state s b = NOT_PROCESSED \<and> length es = 1 \<and>
           last_button_state s' b \<noteq> NOT_PROCESSED"
    unfolding es_def s'_def tick_frame
    using body_arming(1) [of "now x" ?s1 b] f by (auto split: if_splits)
  show "es = [] \<Longrightarrow> last_button_state s' b = NOT_PROCESSED \<Longrightarrow>
           last_button_state s b = NOT_PROCESSED \<or> button_state s' b = IS_NOT_PRESSED"
    unfolding es_def s'_def tick_frame
    using body_arming(2) [of "now x" ?s1 b] f by (auto split: if_splits)
qed

lemma spaced_mono: "spaced c0 a os \<Longrightarrow> (a \<Longrightarrow> a') \<Longrightarrow> spaced c0 a' os"
proof (induction os arbitrary: a a')
  case Nil
  then show ?case by simp
next
  case (Cons p os)
  obtain c es where p: "p = (c, es)" by (cases p)
  show ?case
  proof (cases "es = []")
    case True
    with Cons.prems p have "spaced c0 (a \<or> c = c0) os" by simp
    then have "spaced c0 (a' \<or> c = c0) os"
      by (rule Cons.IH) (use Cons.prems(2) in auto)
    with True p show ?thesis by simp
  next
    case False
    with Cons.prems p show ?thesis by simp
  qed
qed

lemma observe_spaced:
  "spaced IS_NOT_PRESSED (last_button_state s b = NOT_PROCESSED) (observe b xs s)"
proof (induction xs arbitrary: s)
  case Nil
  then show ?case by simp
next
  case (Cons x xs)
  let ?s' = "process_button_schedule x s"
  let ?es = "filter (of_button b) (new_calls s ?s')"
  note ih = Cons.IH [of ?s']
  show ?case
  proof (cases "?es = []")
    case True
    have "spaced IS_NOT_PRESSED
            (last_button_state s b = NOT_PROCESSED \<or> button_state ?s' b = IS_NOT_PRESSED)
            (observe b xs ?s')"
      using ih by (rule spaced_mono) (use tick_arming(2) [OF True] in auto)
    with True show ?thesis by (simp add: Let_def)
  next
    case False
    note t = tick_arming(1) [OF False]
    have "spaced IS_NOT_PRESSED False (observe b xs ?s')"
      using ih by (rule spaced_mono) (use t in auto)
    with False t show ?thesis by (simp add: Let_def)
  qed
qed

lemma spaced_single: "spaced c0 a os \<Longrightarrow> k < length os \<Longrightarrow> length (snd (os ! k)) \<le> 1"
proof (induction os arbitrary: a k)
  case Nil
  then show ?case by simp
next
  case (Cons p os)
  obtain c es where p: "p = (c, es)" by (cases p)
  from Cons.prems(1) p obtain a' where s: "spaced c0 a' os" and l: "length es \<le> 1"
    by (cases "es = []") auto
  show ?case
  proof (cases k)
    case 0
    with p l show ?thesis by simp
  next
    case (Suc k')
    with Cons.IH [OF s, of k'] Cons.prems(2) show ?thesis by simp
  qed
qed

lemma spaced_rearm:
  "spaced c0 False os \<Longrightarrow> k < length os \<Longrightarrow> snd (os ! k) \<noteq> [] \<Longrightarrow>
   \<exists>m<k. os ! m = (c0, [])"
proof (induction os arbitrary: k)
  case Nil
  then show ?case by simp
next
  case (Cons p os)
  obtain c es where p: "p = (c, es)" by (cases p)
  from Cons.prems(1) p have e: "es = []" by (cases "es = []") auto
  with Cons.prems(3) p obtain k' where k: "k = Suc k'" by (cases k) auto
  show ?case
  proof (cases "c = c0")
    case True
    with p e k have "0 < k \<and> (p # os) ! 0 = (c0, [])" by simp
    then show ?thesis by blast
  next
    case False
    with Cons.prems(1) p e have "spaced c0 False os" by simp
    from Cons.IH [OF this, of k'] Cons.prems(2,3) k
    obtain m where "m < k'" "os ! m = (c0, [])" by auto
    with k have "Suc m < k \<and> (p # os) ! Suc m = (c0, [])" by simp
    then show ?thesis by blast
  qed
qed

lemma spaced_between:
  "spaced c0 a os \<Longrightarrow> j < k \<Longrightarrow> k < length os \<Longrightarrow> snd (os ! j) \<noteq> [] \<Longrightarrow> snd (os ! k) \<noteq> [] \<Longrightarrow>
   \<exists>m. j < m \<and> m < k \<and> os ! m = (c0, [])"
proof (induction os arbitrary: a j k)
  case Nil
  then show ?case by simp
next
  case (Cons p os)
  obtain c es where p: "p = (c, es)" by (cases p)
  from Cons.prems(2) obtain k' where k: "k = Suc k'" by (cases k) auto
  show ?case
  proof (cases j)
    case 0
    with Cons.prems(4) p have "es \<noteq> []" by simp
    with Cons.prems(1) p have "spaced c0 False os" by simp
    from spaced_rearm [OF this, of k'] Cons.prems(3,5) k
    obtain m where "m < k'" "os ! m = (c0, [])" by auto
    with 0 k have "j < Suc m \<and> Suc m < k \<and> (p # os) ! Suc m = (c0, [])" by simp
    then show ?thesis by blast
  next
    case (Suc j')
    from Cons.prems(1) p obtain a' where s: "spaced c0 a' os" by (cases "es = []") auto
    from Cons.IH [OF s, of j' k'] Cons.prems(2,3,4,5) Suc k
    obtain m where "j' < m" "m < k'" "os ! m = (c0, [])" by auto
    with Suc k have "j < Suc m \<and> Suc m < k \<and> (p # os) ! Suc m = (c0, [])" by simp
    then show ?thesis by blast
  qed
qed

lemma length_observe: "length (observe b xs s) = length xs"
  by (induction xs arbitrary: s) (simp_all add: Let_def)

subsection \<open>When a click is emitted\<close>

lemma in_concat_fires:
  "e \<in> set (concat (map (fires t s) js)) \<longleftrightarrow> (\<exists>i \<in> set js. e \<in> set (fires t s i))"
  by auto




subsection \<open>No event within the debounce time of the timestamp\<close>

lemma not_expired_near:
  assumes "m \<le> unat w" and "unat t \<le> m + 40" and "m + 2040 < 2 ^ 32" and "unat w \<le> m + 40"
  shows "\<not> expired w BUTTON_HOLD_FOR_TURBO_DELAY_IN_MILLIS t"
    and "\<not> expired w DEBOUNCE_DELAY_MILLS t"
  using assms by (simp_all add: expired_nat time_consts)

lemma stamped_frame:
  "last_interaction_timestamp s' = last_interaction_timestamp s \<Longrightarrow>
   stamped b m s' = stamped b m s"
  by (simp add: stamped_def stamp_of_def)

lemma stamped_body:
  assumes "stamped b m s" and "m \<le> unat t" and "unat t \<le> m + 40"
  shows "stamped b m (process_buttons_body t i s)"
  using assms
  by (auto simp: stamped_def stamp_of_def process_buttons_body_def Let_def set_timestamp_def
      handler_frame static_init_def)

lemma stamped_tick:
  assumes "stamped b m s" and "m \<le> unat (now x)" and "unat (now x) \<le> m + 40"
  shows "stamped b m (process_button_schedule x s)"
proof -
  let ?s1 = "poll_input_signals (poll_start x) (level x) (s\<lparr>last_buttons_update := Some (now x)\<rparr>)"
  let ?s1' = "?s1\<lparr>last_interaction_timestamp :=
                Some (static_init (\<lambda>_. now x) (last_interaction_timestamp ?s1))\<rparr>"
  have "stamped b m ?s1" using assms(1) by (simp add: stamped_def stamp_of_def poll_frame)
  then have "stamped b m ?s1'"
    by (auto simp: stamped_def stamp_of_def static_init_def)
  then have "stamped b m (fold (process_buttons_body (now x)) [buttons_start x ..< NUMBER_OF_BUTTONS] ?s1')"
    by (rule fold_preserves [rotated]) (rule stamped_body [OF _ assms(2,3)])
  then have "stamped b m (process_buttons (buttons_start x) (now x) ?s1)"
    by (simp add: process_buttons_def for_buttons_def)
  then show ?thesis
    by (simp add: process_button_schedule_def Let_def stamped_def stamp_of_def turbo_frame)
qed

lemma quiet_tick:
  assumes "stamped b m s" and "m \<le> unat (now x)" and "unat (now x) \<le> m + 40"
    and "m + 2040 < 2 ^ 32"
  shows "filter (of_button b) (new_calls s (process_button_schedule x s)) = []"
proof -
  let ?s1 = "poll_input_signals (poll_start x) (level x) (s\<lparr>last_buttons_update := Some (now x)\<rparr>)"
  from assms(1) obtain w where w: "stamp_of s b = Some w" "m \<le> unat w" "unat w \<le> m + 40"
    by (auto simp: stamped_def)
  then have "timestamp (now x) ?s1 b = w"
    by (auto simp: timestamp_def stamp_of_def poll_frame static_init_def)
  with not_expired_near [OF w(2) assms(3,4) w(3)] have "fires (now x) ?s1 b = []"
    by (simp add: fires_def)
  then show ?thesis by (simp add: tick_frame)
qed

lemma quiet_run:
  assumes "m + 2040 < 2 ^ 32"
  shows "stamped b m s \<Longrightarrow> \<forall>x \<in> set xs. m \<le> unat (now x) \<and> unat (now x) \<le> m + 40 \<Longrightarrow>
         \<forall>p \<in> set (observe b xs s). snd p = []"
proof (induction xs arbitrary: s)
  case Nil
  then show ?case by simp
next
  case (Cons x xs)
  have t: "m \<le> unat (now x)" "unat (now x) \<le> m + 40" using Cons.prems(2) by simp_all
  note q = quiet_tick [OF Cons.prems(1) t assms]
  note st = stamped_tick [OF Cons.prems(1) t]
  have "\<forall>x \<in> set xs. m \<le> unat (now x) \<and> unat (now x) \<le> m + 40" using Cons.prems(2) by simp
  from Cons.IH [OF st this] q show ?case by (simp add: Let_def)
qed

text \<open>
  C7. No event for a press shorter than the debounce time: the sketch fails it. The
  speed-up button reads open at clock value 0, pressed from 5 to 35 and open at 39, so
  that it was pressed for less than 40 ms; the next pass, at 41, emits a click.
\<close>

theorem short_press_clicks:
  "snd (observe 0 short_press started ! 9) = [Click 0] \<and>
   level (short_press ! 0) 0 \<and> now (short_press ! 0) = 0 \<and>
   level (short_press ! 8) 0 \<and> now (short_press ! 8) = 39"
  by code_simp

text \<open>
  What the debounce timer does absorb. Let the timestamp of button \<open>b\<close> be \<open>mark\<close>,
  more than 2040 ms before the clock wraps. Passes made from \<open>mark\<close> on, none of them
  more than \<open>DEBOUNCE_DELAY_MILLS\<close> after \<open>mark\<close>, emit no event of the button, whatever
  the contact does; so a 10 ms press read once per millisecond goes unnoticed.
\<close>

theorem no_event_within_debounce:
  assumes "stamp_of s b = Some mark" and "unat mark + 2040 < 2 ^ 32"
    and "\<forall>x \<in> set xs. unat mark \<le> unat (now x) \<and>
           unat (now x) \<le> unat mark + unat DEBOUNCE_DELAY_MILLS"
  shows "\<forall>p \<in> set (observe b xs s). snd p = []"
proof -
  have "stamped b (unat mark) s" using assms(1) by (simp add: stamped_def)
  moreover have "\<forall>x \<in> set xs. unat mark \<le> unat (now x) \<and> unat (now x) \<le> unat mark + 40"
    using assms(3) by (simp add: time_consts)
  ultimately show ?thesis using quiet_run [OF assms(2)] by blast
qed

theorem no_event_within_debounce_witness:
  "stamp_of (process_button_schedule (idle 0) started) 0 = Some 0 \<and>
   unat (0::ulong) + 2040 < 2 ^ 32 \<and>
   list_all (\<lambda>x. unat (0::ulong) \<le> unat (now x) \<and>
                 unat (now x) \<le> unat (0::ulong) + unat DEBOUNCE_DELAY_MILLS) brief_press \<and>
   list_all (\<lambda>p. snd p = []) (observe 0 brief_press (process_button_schedule (idle 0) started))"
proof -
  have a: "stamp_of (process_button_schedule (idle 0) started) 0 = Some 0" by code_simp
  have b: "unat (0::ulong) + 2040 < 2 ^ 32" by simp
  have c: "list_all (\<lambda>x. unat (0::ulong) \<le> unat (now x) \<and>
                 unat (now x) \<le> unat (0::ulong) + unat DEBOUNCE_DELAY_MILLS) brief_press"
    by code_simp
  then have c': "\<forall>x \<in> set brief_press. unat (0::ulong) \<le> unat (now x) \<and>
                 unat (now x) \<le> unat (0::ulong) + unat DEBOUNCE_DELAY_MILLS"
    by (simp only: list_all_iff)
  from no_event_within_debounce [OF a b c'] a b c show ?thesis by (simp only: list_all_iff)
qed

subsection \<open>Events without a fresh press\<close>

text \<open>
  C1. At most one logical event per press: the sketch fails it. The speed-up button is
  pressed once, from clock value 10 to 60; its click is emitted at 80 and the button is
  armed again at 90. The next pass, at 140, finds the button idle and emits a second
  click, although no press has begun. And a button that is never pressed, polled once
  per millisecond, emits a click 39 ms before the clock wraps: its timestamp plus the
  debounce time overflows to 0.
\<close>

theorem click_without_press:
  "map snd (observe 0 double_click started) =
     [ [], [], [], [], [], [], [], [], [Click 0], [], [Click 0] ] \<and>
   map fst (observe 0 double_click started) =
     [IS_NOT_PRESSED, IS_PRESSED, IS_HELD, IS_HELD, IS_HELD, IS_HELD, IS_HELD, WAS_RELEASED,
      IS_NOT_PRESSED, IS_NOT_PRESSED, IS_NOT_PRESSED] \<and>
   observe 0 idle_at_wrap started =
     [(IS_NOT_PRESSED, []), (IS_NOT_PRESSED, []), (IS_NOT_PRESSED, []), (IS_NOT_PRESSED, []),
      (IS_NOT_PRESSED, []), (IS_NOT_PRESSED, []), (IS_NOT_PRESSED, []),
      (IS_NOT_PRESSED, [Click 0])]"
  by code_simp

subsection \<open>One event per fresh press, when the passes are regular\<close>

lemma fold_poll_at:
  "distinct js \<Longrightarrow>
   button_state (fold (poll_input_signals_body lv) js s) b =
     (if b \<in> set js then button_state (poll_input_signals_body lv b s) b else button_state s b) \<and>
   last_button_read (fold (poll_input_signals_body lv) js s) b =
     (if b \<in> set js then last_button_read (poll_input_signals_body lv b s) b
      else last_button_read s b)"
proof (induction js arbitrary: s)
  case Nil
  then show ?case by simp
next
  case (Cons j js)
  have d: "distinct js" using Cons.prems by simp
  show ?case
  proof (cases "b = j")
    case True
    with Cons.prems Cons.IH [OF d, of "poll_input_signals_body lv j s"] show ?thesis by simp
  next
    case False
    then have "button_state (poll_input_signals_body lv b (poll_input_signals_body lv j s)) b =
               button_state (poll_input_signals_body lv b s) b"
      and "last_button_read (poll_input_signals_body lv b (poll_input_signals_body lv j s)) b =
           last_button_read (poll_input_signals_body lv b s) b"
      and "button_state (poll_input_signals_body lv j s) b = button_state s b"
      and "last_button_read (poll_input_signals_body lv j s) b = last_button_read s b"
      by (simp_all add: poll_input_signals_body_def Let_def)
    with False Cons.IH [OF d, of "poll_input_signals_body lv j s"] show ?thesis by simp
  qed
qed

lemma poll_visit:
  assumes "i0 \<le> b" and "b < NUMBER_OF_BUTTONS"
  shows "button_state (poll_input_signals i0 lv s) b =
           (if \<not> last_button_read s b \<and> \<not> lv b then IS_PRESSED
            else if last_button_read s b \<and> \<not> lv b then IS_HELD
            else if last_button_read s b \<and> lv b then WAS_RELEASED
            else IS_NOT_PRESSED)"
    and "last_button_read (poll_input_signals i0 lv s) b = (\<not> lv b)"
  using assms fold_poll_at [of "[i0 ..< NUMBER_OF_BUTTONS]" lv s b]
  by (simp_all add: poll_input_signals_def for_buttons_def poll_input_signals_body_def Let_def)

lemma body_timestamp_at:
  "timestamp t (process_buttons_body t b s) b =
     (if (button_state s b = IS_HELD \<and>
          expired (timestamp t s b) BUTTON_HOLD_FOR_TURBO_DELAY_IN_MILLIS t) \<or>
         button_state s b = IS_NOT_PRESSED
      then t else timestamp t s b)"
  by (simp add: process_buttons_body_def Let_def set_timestamp_def handler_frame
      timestamp_def static_init_def split: option.split)

lemma fold_body_timestamp:
  "distinct js \<Longrightarrow>
   timestamp t (fold (process_buttons_body t) js s) b =
     (if b \<in> set js then timestamp t (process_buttons_body t b s) b else timestamp t s b)"
proof (induction js arbitrary: s)
  case Nil
  then show ?case by simp
next
  case (Cons j js)
  show ?case
  proof (cases "b = j")
    case True
    with Cons show ?thesis by simp
  next
    case False
    have "timestamp t (process_buttons_body t b (process_buttons_body t j s)) b =
          timestamp t (process_buttons_body t b s) b"
      using False by (simp add: body_timestamp_at body_button_state body_timestamp_other)
    with Cons False show ?thesis by (simp add: body_timestamp_other)
  qed
qed

lemma body_read: "last_button_read (process_buttons_body t i s) = last_button_read s"
  by (simp add: process_buttons_body_def Let_def set_timestamp_def handler_defs)

lemma body_stamp_some:
  "last_interaction_timestamp s \<noteq> None \<Longrightarrow>
   last_interaction_timestamp (process_buttons_body t i s) \<noteq> None"
  by (simp add: process_buttons_body_def Let_def set_timestamp_def handler_frame)

lemma stamp_of_timestamp:
  "last_interaction_timestamp s \<noteq> None \<Longrightarrow> stamp_of s b = Some (timestamp t s b)"
  by (auto simp: stamp_of_def timestamp_def static_init_def)

lemma body_idle_stamp:
  "button_state s b = IS_NOT_PRESSED \<Longrightarrow> timestamp t (process_buttons_body t b s) b = t"
  by (simp add: body_timestamp_at)

lemma tick_visit:
  assumes "poll_start x \<le> b" and "buttons_start x \<le> b" and "b < NUMBER_OF_BUTTONS"
  shows "button_state (process_button_schedule x s) b =
           (if \<not> last_button_read s b \<and> \<not> level x b then IS_PRESSED
            else if last_button_read s b \<and> \<not> level x b then IS_HELD
            else if last_button_read s b \<and> level x b then WAS_RELEASED
            else IS_NOT_PRESSED)"
    and "last_button_read (process_button_schedule x s) b = (\<not> level x b)"
    and "button_state (process_button_schedule x s) b = IS_NOT_PRESSED \<Longrightarrow>
         stamp_of (process_button_schedule x s) b = Some (now x)"
proof -
  let ?s1 = "poll_input_signals (poll_start x) (level x) (s\<lparr>last_buttons_update := Some (now x)\<rparr>)"
  let ?s1' = "?s1\<lparr>last_interaction_timestamp :=
                Some (static_init (\<lambda>_. now x) (last_interaction_timestamp ?s1))\<rparr>"
  let ?s2 = "fold (process_buttons_body (now x)) [buttons_start x ..< NUMBER_OF_BUTTONS] ?s1'"
  have e: "process_button_schedule x s = process_turbo_request (now x) ?s2"
    by (simp add: process_button_schedule_def Let_def process_buttons_def for_buttons_def)
  have r: "last_button_read (process_turbo_request (now x) ?s2) = last_button_read ?s2"
    by (simp add: process_turbo_request_def turbo_request_enter_def Let_def)
  have r2: "last_button_read ?s2 = last_button_read ?s1'"
    by (rule fold_field) (rule body_read)
  show c: "button_state (process_button_schedule x s) b =
           (if \<not> last_button_read s b \<and> \<not> level x b then IS_PRESSED
            else if last_button_read s b \<and> \<not> level x b then IS_HELD
            else if last_button_read s b \<and> level x b then WAS_RELEASED
            else IS_NOT_PRESSED)"
    using poll_visit(1) [OF assms(1,3), of "level x" "s\<lparr>last_buttons_update := Some (now x)\<rparr>"]
    by (simp add: tick_frame)
  show "last_button_read (process_button_schedule x s) b = (\<not> level x b)"
    using poll_visit(2) [OF assms(1,3), of "level x" "s\<lparr>last_buttons_update := Some (now x)\<rparr>"]
    by (simp add: e r r2)
  have n: "last_interaction_timestamp ?s2 \<noteq> None"
    by (rule fold_preserves [where P = "\<lambda>s. last_interaction_timestamp s \<noteq> None"])
       (simp_all add: body_stamp_some)
  have b1: "button_state ?s1' b = button_state (process_button_schedule x s) b"
    by (simp add: tick_frame)
  have "timestamp (now x) ?s2 b = timestamp (now x) (process_buttons_body (now x) b ?s1') b"
    using assms(2,3) by (simp add: fold_body_timestamp)
  then have "button_state (process_button_schedule x s) b = IS_NOT_PRESSED \<Longrightarrow>
        timestamp (now x) ?s2 b = now x"
    using b1 by (simp add: body_idle_stamp)
  moreover have "stamp_of (process_button_schedule x s) b = Some (timestamp (now x) ?s2 b)"
    using stamp_of_timestamp [OF n, of b "now x"]
    by (simp add: e stamp_of_def turbo_frame)
  ultimately show "button_state (process_button_schedule x s) b = IS_NOT_PRESSED \<Longrightarrow>
         stamp_of (process_button_schedule x s) b = Some (now x)"
    by simp
qed

lemma not_expired_paced:
  assumes "unat t + unat DEBOUNCE_DELAY_MILLS < 2 ^ 32"
    and "unat w \<le> unat t" and "unat t \<le> unat w + unat DEBOUNCE_DELAY_MILLS"
  shows "\<not> expired w DEBOUNCE_DELAY_MILLS t"
  using assms by (simp add: expired_nat)

lemma tick_settled:
  fixes x s b
  defines "s' \<equiv> process_button_schedule x s"
  defines "es \<equiv> filter (of_button b) (new_calls s s')"
  assumes v: "poll_start x \<le> b" "buttons_start x \<le> b" "b < NUMBER_OF_BUTTONS"
    and nw: "unat (now x) + unat DEBOUNCE_DELAY_MILLS < 2 ^ 32"
    and q: "settled b t s"
    and tm: "unat t \<le> unat (now x)" "unat (now x) \<le> unat t + unat DEBOUNCE_DELAY_MILLS"
  shows "es = []" and "button_state s' b = IS_PRESSED \<or> settled b (now x) s'"
proof -
  let ?s1 = "poll_input_signals (poll_start x) (level x) (s\<lparr>last_buttons_update := Some (now x)\<rparr>)"
  have cls: "button_state s' b =
           (if \<not> last_button_read s b \<and> \<not> level x b then IS_PRESSED
            else if last_button_read s b \<and> \<not> level x b then IS_HELD
            else if last_button_read s b \<and> level x b then WAS_RELEASED
            else IS_NOT_PRESSED)"
    unfolding s'_def by (rule tick_visit(1) [OF v])
  have rd: "last_button_read s' b = (\<not> level x b)"
    unfolding s'_def by (rule tick_visit(2) [OF v])
  have st: "button_state s' b = IS_NOT_PRESSED \<Longrightarrow> stamp_of s' b = Some (now x)"
    unfolding s'_def by (rule tick_visit(3) [OF v])
  have ev: "es = fires (now x) ?s1 b"
    unfolding es_def s'_def using v by (simp add: tick_frame)
  have c1: "button_state ?s1 b = button_state s' b"
    unfolding s'_def by (simp add: tick_frame)
  have f1: "last_button_state ?s1 b = last_button_state s b" by (simp add: poll_frame)
  have t1: "timestamp (now x) ?s1 b = timestamp (now x) s b"
    by (simp add: timestamp_def poll_frame)
  show e: "es = []"
  proof (cases "last_button_state s b = NOT_PROCESSED")
    case False
    then show ?thesis by (simp add: ev fires_def f1)
  next
    case True
    with q have r: "\<not> last_button_read s b"
      and w: "timestamp (now x) s b = t \<or> timestamp (now x) s b = now x"
      by (auto simp: settled_def stamp_of_def timestamp_def static_init_def split: option.splits)
    have "\<not> expired (timestamp (now x) s b) DEBOUNCE_DELAY_MILLS (now x)"
    proof (rule not_expired_paced [OF nw])
      from w tm show "unat (timestamp (now x) s b) \<le> unat (now x)" by auto
      from w tm show "unat (now x) \<le> unat (timestamp (now x) s b) + unat DEBOUNCE_DELAY_MILLS"
        by auto
    qed
    with r cls show ?thesis by (simp add: ev fires_def c1 t1)
  qed
  show "button_state s' b = IS_PRESSED \<or> settled b (now x) s'"
  proof (cases "last_button_state s' b = NOT_PROCESSED")
    case False
    then show ?thesis by (simp add: settled_def)
  next
    case True
    have "button_state s' b = IS_PRESSED \<or> button_state s' b = IS_NOT_PRESSED"
    proof (cases "last_button_state s b = NOT_PROCESSED")
      case False
      with tick_arming(2) [of b s x] e True show ?thesis by (simp add: es_def s'_def)
    next
      case n: True
      with q have "\<not> last_button_read s b" by (simp add: settled_def)
      with cls show ?thesis by simp
    qed
    then show ?thesis
    proof
      assume "button_state s' b = IS_PRESSED"
      then show ?thesis by simp
    next
      assume i: "button_state s' b = IS_NOT_PRESSED"
      with cls have "level x b" by (simp split: if_splits)
      with rd st [OF i] show ?thesis by (simp add: settled_def)
    qed
  qed
qed

lemma observe_fresh:
  "paced b prev xs \<Longrightarrow> ok \<or> (\<exists>t. prev = Some t \<and> settled b t s) \<Longrightarrow>
   spaced IS_PRESSED ok (observe b xs s)"
proof (induction xs arbitrary: s prev ok)
  case Nil
  then show ?case by simp
next
  case (Cons x xs)
  let ?s' = "process_button_schedule x s"
  let ?es = "filter (of_button b) (new_calls s ?s')"
  from Cons.prems(1) have v: "poll_start x \<le> b" "buttons_start x \<le> b" "b < NUMBER_OF_BUTTONS"
    and nw: "unat (now x) + unat DEBOUNCE_DELAY_MILLS < 2 ^ 32"
    and p: "paced b (Some (now x)) xs"
    by simp_all
  have quiet: "?es = [] \<and> (button_state ?s' b = IS_PRESSED \<or> settled b (now x) ?s')" if "\<not> ok"
  proof -
    from that Cons.prems(2) obtain t where t: "prev = Some t" "settled b t s" by auto
    with Cons.prems(1) have tm: "unat t \<le> unat (now x)"
      "unat (now x) \<le> unat t + unat DEBOUNCE_DELAY_MILLS" by simp_all
    from tick_settled [OF v nw t(2) tm] show ?thesis by simp
  qed
  show ?case
  proof (cases "?es = []")
    case True
    have "(ok \<or> button_state ?s' b = IS_PRESSED) \<or>
          (\<exists>t. Some (now x) = Some t \<and> settled b t ?s')"
      using quiet by auto
    from Cons.IH [OF p this] True show ?thesis by (simp add: Let_def)
  next
    case False
    with quiet have ok: ok by auto
    note a = tick_arming(1) [OF False]
    then have "settled b (now x) ?s'" by (simp add: settled_def)
    then have "False \<or> (\<exists>t. Some (now x) = Some t \<and> settled b t ?s')" by simp
    from Cons.IH [OF p this] False ok a show ?thesis by (simp add: Let_def)
  qed
qed

text \<open>
  What the processed flag does guarantee. For every sequence of passes, from every
  state, and every button: a pass emits at most one logical event of the button, and
  two passes that emit an event of the button are separated by a pass that classifies
  it \<open>IS_NOT_PRESSED\<close> and emits nothing; so one sustained contact yields at most one
  event, a click or a hold, never both and never two of a kind. When, moreover, every
  pass visits the button, is made more than \<open>DEBOUNCE_DELAY_MILLS\<close> before the clock
  wraps, and comes no earlier and no more than \<open>DEBOUNCE_DELAY_MILLS\<close> later than the
  pass before it, two passes that emit an event of the button are separated by a pass
  that classifies it \<open>IS_PRESSED\<close>, the beginning of a fresh press.
\<close>

theorem one_event_until_rearmed:
  "(\<forall>k < length xs. length (snd (observe b xs s ! k)) \<le> 1) \<and>
   (\<forall>j k. j < k \<and> k < length xs \<and>
      snd (observe b xs s ! j) \<noteq> [] \<and> snd (observe b xs s ! k) \<noteq> []
      \<longrightarrow> (\<exists>m. j < m \<and> m < k \<and> observe b xs s ! m = (IS_NOT_PRESSED, []))) \<and>
   (paced b None xs \<longrightarrow>
    (\<forall>j k. j < k \<and> k < length xs \<and>
       snd (observe b xs s ! j) \<noteq> [] \<and> snd (observe b xs s ! k) \<noteq> []
       \<longrightarrow> (\<exists>m. j < m \<and> m < k \<and> observe b xs s ! m = (IS_PRESSED, []))))"
proof -
  note a = observe_spaced [of s b xs]
  have 1: "\<forall>k < length xs. length (snd (observe b xs s ! k)) \<le> 1"
    using spaced_single [OF a] by (simp add: length_observe)
  have 2: "\<forall>j k. j < k \<and> k < length xs \<and>
      snd (observe b xs s ! j) \<noteq> [] \<and> snd (observe b xs s ! k) \<noteq> []
      \<longrightarrow> (\<exists>m. j < m \<and> m < k \<and> observe b xs s ! m = (IS_NOT_PRESSED, []))"
    using spaced_between [OF a] by (simp add: length_observe)
  have 3: "\<forall>j k. j < k \<and> k < length xs \<and>
       snd (observe b xs s ! j) \<noteq> [] \<and> snd (observe b xs s ! k) \<noteq> []
       \<longrightarrow> (\<exists>m. j < m \<and> m < k \<and> observe b xs s ! m = (IS_PRESSED, []))"
    if "paced b None xs"
  proof -
    have "spaced IS_PRESSED True (observe b xs s)"
      using that by (rule observe_fresh) simp
    from spaced_between [OF this] show ?thesis by (simp add: length_observe)
  qed
  from 1 2 3 show ?thesis by blast
qed

lemma two_clicks_paced: "paced 0 None two_clicks"
  by (simp add: two_clicks_def long_press_def pass_def idle_def time_consts button_ids)

theorem one_event_until_rearmed_witness:
  "paced 0 None two_clicks \<and> (8::nat) < 14 \<and> 14 < length two_clicks \<and>
   snd (observe 0 two_clicks started ! 8) \<noteq> [] \<and>
   snd (observe 0 two_clicks started ! 14) \<noteq> [] \<and>
   (\<exists>m. 8 < m \<and> m < 14 \<and> observe 0 two_clicks started ! m = (IS_NOT_PRESSED, [])) \<and>
   (\<exists>m. 8 < m \<and> m < 14 \<and> observe 0 two_clicks started ! m = (IS_PRESSED, []))"
proof -
  have a: "(8::nat) < 14 \<and> 14 < length two_clicks"
    by (simp add: two_clicks_def long_press_def)
  have b: "snd (observe 0 two_clicks started ! 8) \<noteq> []" by code_simp
  have c: "snd (observe 0 two_clicks started ! 14) \<noteq> []" by code_simp
  from one_event_until_rearmed [of two_clicks 0 started] two_clicks_paced a b c
  show ?thesis by blast
qed

end
